theory Spec2Isabelle
  imports Main "HOL-Library.Multiset"
begin

section \<open>json2srt: Whisper JSON to SRT captions\<close>

text \<open>
  A shallow embedding of \<^verbatim>\<open>main.go\<close>. Go strings are byte sequences and are modelled
  as \<^typ>\<open>string\<close> (lists of 8-bit characters). Source line numbers refer to
  \<^verbatim>\<open>src/main.go\<close>.
\<close>

subsection \<open>Data model (lines 15--38)\<close>

record Timestamp =
  From :: string
  To :: string

text \<open>
  \<^verbatim>\<open>Token\<close> and \<^verbatim>\<open>Segment\<close> both have fields \<^verbatim>\<open>Text\<close> and \<^verbatim>\<open>Timestamps\<close>; the
  record fields carry the struct's name as a prefix to keep them apart.
\<close>

record Token =
  token_Text :: string
  token_Timestamps :: Timestamp

record Segment =
  segment_Timestamps :: Timestamp
  segment_Text :: string
  segment_Tokens :: "Token list"

text \<open>
  \<^verbatim>\<open>Transcription []Segment\<close> is a slice that \<^verbatim>\<open>processFile\<close> compares with \<^verbatim>\<open>nil\<close>:
  \<open>None\<close> is the nil slice, \<open>Some segs\<close> a non-nil slice (possibly of length 0).
  \<^verbatim>\<open>Tokens\<close> is only ever ranged over and measured, which does not tell nil from empty,
  so it is a plain list.
\<close>

record WhisperOutput =
  Transcription :: "Segment list option"

subsection \<open>Library functions used by the core\<close>

text \<open>\<^verbatim>\<open>strings.HasPrefix(s, prefix)\<close>: \<^verbatim>\<open>len(s) >= len(prefix) && s[:len(prefix)] == prefix\<close>.\<close>

definition HasPrefix :: "string \<Rightarrow> string \<Rightarrow> bool" where
  "HasPrefix s pre \<longleftrightarrow> length pre \<le> length s \<and> take (length pre) s = pre"

subsection \<open>extractTimestamps (lines 43--74)\<close>

text \<open>The test both loops apply to a token (lines 49 and 60).\<close>

definition nonNoise :: "Token \<Rightarrow> bool" where
  "nonNoise token \<longleftrightarrow> \<not> HasPrefix (token_Text token) ''[_'' \<and> token_Text token \<noteq> ''''"

text \<open>
  The forward loop of lines 48--55 over the tokens still to visit. The state is the pair
  \<open>(startTime, hasValidTokens)\<close>; \<^verbatim>\<open>break\<close> returns it at once.
\<close>

fun forwardLoop :: "Token list \<Rightarrow> string \<times> bool \<Rightarrow> string \<times> bool" where
  "forwardLoop [] (startTime, hasValidTokens) = (startTime, hasValidTokens)"
| "forwardLoop (token # rest) (startTime, hasValidTokens) =
     (if nonNoise token then (From (token_Timestamps token), True)
      else forwardLoop rest (startTime, hasValidTokens))"

text \<open>
  The backward loop of lines 58--65: \<open>j\<close> runs from \<^verbatim>\<open>len(segment.Tokens) - 1\<close> down to 0.
  The state is the pair \<open>(endTime, hasValidTokens)\<close>. The index expression
  \<^verbatim>\<open>segment.Tokens[j]\<close> panics in Go when \<open>j\<close> is out of range; that is the result \<open>None\<close>.
\<close>

function backwardLoop :: "Token list \<Rightarrow> int \<Rightarrow> string \<times> bool \<Rightarrow> (string \<times> bool) option" where
  "backwardLoop tokens j (endTime, hasValidTokens) =
     (if j \<ge> 0 then
        (if nat j < length tokens then
           (let token = tokens ! nat j in
            if nonNoise token then Some (To (token_Timestamps token), True)
            else backwardLoop tokens (j - 1) (endTime, hasValidTokens))
         else None)
      else Some (endTime, hasValidTokens))"
  by pat_completeness auto
termination
  by (relation "measure (\<lambda>(tokens, j, st). nat (j + 1))") auto

declare backwardLoop.simps [simp del]

text \<open>
  The function returns \<open>(startTime, endTime, hasValidTokens)\<close>; \<open>None\<close> stands for a panic
  in the backward loop.
\<close>

definition extractTimestamps :: "Segment \<Rightarrow> (string \<times> string \<times> bool) option" where
  "extractTimestamps segment =
     (let (startTime, hasValidTokens) = forwardLoop (segment_Tokens segment) ('''', False) in
      case backwardLoop (segment_Tokens segment) (int (length (segment_Tokens segment)) - 1)
             ('''', hasValidTokens) of
        None \<Rightarrow> None
      | Some (endTime, hasValidTokens) \<Rightarrow>
          if \<not> hasValidTokens \<or> startTime = '''' \<or> endTime = ''''
          then Some (From (segment_Timestamps segment), To (segment_Timestamps segment),
                     hasValidTokens)
          else Some (startTime, endTime, hasValidTokens))"

subsection \<open>More library functions: white space and decimal numbers\<close>

text \<open>
  \<^verbatim>\<open>strings.TrimSpace\<close> removes all leading and trailing white space, as defined by
  Unicode, from a UTF-8 encoded string. The code points for which \<^verbatim>\<open>unicode.IsSpace\<close>
  holds are U+0009 to U+000D, U+0020, U+0085, U+00A0, U+1680, U+2000 to U+200A, U+2028,
  U+2029, U+202F, U+205F and U+3000. UTF-8 is self-synchronising and Go's decoder accepts
  only the shortest encoding, so a string begins (ends) with a white-space rune exactly
  when it begins (ends) with one of the byte sequences below.
\<close>

definition spaceRunes :: "string list" where
  "spaceRunes =
     [[CHR 0x09], [CHR 0x0A], [CHR 0x0B], [CHR 0x0C], [CHR 0x0D], [CHR 0x20],
      [CHR 0xC2, CHR 0x85], [CHR 0xC2, CHR 0xA0],
      [CHR 0xE1, CHR 0x9A, CHR 0x80],
      [CHR 0xE2, CHR 0x80, CHR 0x80], [CHR 0xE2, CHR 0x80, CHR 0x81],
      [CHR 0xE2, CHR 0x80, CHR 0x82], [CHR 0xE2, CHR 0x80, CHR 0x83],
      [CHR 0xE2, CHR 0x80, CHR 0x84], [CHR 0xE2, CHR 0x80, CHR 0x85],
      [CHR 0xE2, CHR 0x80, CHR 0x86], [CHR 0xE2, CHR 0x80, CHR 0x87],
      [CHR 0xE2, CHR 0x80, CHR 0x88], [CHR 0xE2, CHR 0x80, CHR 0x89],
      [CHR 0xE2, CHR 0x80, CHR 0x8A],
      [CHR 0xE2, CHR 0x80, CHR 0xA8], [CHR 0xE2, CHR 0x80, CHR 0xA9],
      [CHR 0xE2, CHR 0x80, CHR 0xAF],
      [CHR 0xE2, CHR 0x81, CHR 0x9F],
      [CHR 0xE3, CHR 0x80, CHR 0x80]]"

text \<open>The first of the sequences \<open>runes\<close> that \<open>s\<close> begins with, if any.\<close>

definition leadingRune :: "string list \<Rightarrow> string \<Rightarrow> string option" where
  "leadingRune runes s = find (HasPrefix s) runes"

text \<open>\<^verbatim>\<open>strings.TrimLeftFunc\<close>: drop leading runes while they are among \<open>runes\<close>.\<close>

function trimLeading :: "string list \<Rightarrow> string \<Rightarrow> string" where
  "trimLeading runes s =
     (case leadingRune runes s of
        None \<Rightarrow> s
      | Some r \<Rightarrow> if r = [] then s else trimLeading runes (drop (length r) s))"
  by pat_completeness auto
termination
proof (relation "measure (\<lambda>(runes, s). length s)")
  show "wf (measure (\<lambda>(runes, s). length s))" by simp
next
  fix runes :: "string list" and s r :: string
  assume "leadingRune runes s = Some r" and "r \<noteq> []"
  then have "HasPrefix s r"
    by (auto simp: leadingRune_def find_Some_iff)
  with \<open>r \<noteq> []\<close> have "s \<noteq> []"
    by (auto simp: HasPrefix_def)
  with \<open>r \<noteq> []\<close> show "((runes, drop (length r) s), (runes, s)) \<in> measure (\<lambda>(runes, s). length s)"
    by simp
qed

declare trimLeading.simps [simp del]

definition TrimLeft :: "string \<Rightarrow> string" where
  "TrimLeft s = trimLeading spaceRunes s"

text \<open>Trailing white space: the same scan over the reversed bytes.\<close>

definition TrimRight :: "string \<Rightarrow> string" where
  "TrimRight s = rev (trimLeading (map rev spaceRunes) (rev s))"

text \<open>\<^verbatim>\<open>strings.TrimSpace\<close> trims the front first, then the back of what is left.\<close>

definition TrimSpace :: "string \<Rightarrow> string" where
  "TrimSpace s = TrimRight (TrimLeft s)"

text \<open>\<^verbatim>\<open>fmt.Sprintf("%d", n)\<close> for \<open>n \<ge> 0\<close>: decimal digits, most significant first.\<close>

fun Sprintf_d :: "nat \<Rightarrow> string" where
  "Sprintf_d n =
     (if n < 10 then [''0123456789'' ! n]
      else Sprintf_d (n div 10) @ [''0123456789'' ! (n mod 10)])"

declare Sprintf_d.simps [simp del]

subsection \<open>Contexts, errors and the environment\<close>

text \<open>
  A \<^verbatim>\<open>context.Context\<close> is used only through receive attempts on \<^verbatim>\<open>ctx.Done()\<close>. It is
  modelled by the outcomes of these attempts: \<open>ctx n\<close> tells whether the attempt number
  \<open>n\<close> of the run (counted from 0) took the branch \<^verbatim>\<open>case <-ctx.Done()\<close>. The number of
  attempts made so far is threaded through the functions as \<open>polls\<close>.
  \<^verbatim>\<open>context.Background()\<close>, the context \<^verbatim>\<open>main\<close> creates, is never cancelled.
\<close>

type_synonym Context = "nat \<Rightarrow> bool"

definition Background :: Context where
  "Background = (\<lambda>n. False)"

text \<open>
  The errors \<^verbatim>\<open>processFile\<close> returns: \<^verbatim>\<open>ctx.Err()\<close> and the four \<^verbatim>\<open>fmt.Errorf\<close> values, which
  carry the path the message names. \<open>Panic\<close> is the run-time panic of an index out of
  range.
\<close>

datatype error =
    Canceled
  | ReadError string
  | ParseError string
  | MissingTranscription string
  | WriteError string
  | Panic

abbreviation newline :: char where
  "newline \<equiv> CHR 0x0A"

subsection \<open>The segment loop of processFile (lines 101--120)\<close>

text \<open>
  \<open>i\<close> is the loop index of \<^verbatim>\<open>range output.Transcription\<close>, the list holds the segments
  still to visit, and the state is the builder's content with the poll counter.
\<close>

fun segmentsLoop ::
  "Context \<Rightarrow> nat \<Rightarrow> Segment list \<Rightarrow> string \<times> nat \<Rightarrow> (error + string) \<times> nat" where
  "segmentsLoop ctx i [] (srtBuilder, polls) = (Inr srtBuilder, polls)"
| "segmentsLoop ctx i (segment # rest) (srtBuilder, polls) =
     (if ctx polls then (Inl Canceled, polls + 1)
      else
        (case extractTimestamps segment of
           None \<Rightarrow> (Inl Panic, polls + 1)
         | Some (startTime, endTime, _) \<Rightarrow>
             if startTime = '''' \<or> endTime = ''''
             then segmentsLoop ctx (i + 1) rest (srtBuilder, polls + 1)
             else
               (let text = TrimSpace (segment_Text segment);
                    srtBuilder = srtBuilder @ (Sprintf_d (i + 1) @ [newline]);
                    srtBuilder = srtBuilder @ (startTime @ '' --> '' @ endTime @ [newline]);
                    srtBuilder = srtBuilder @ (text @ [newline, newline])
                in segmentsLoop ctx (i + 1) rest (srtBuilder, polls + 1))))"

text \<open>
  Lines 96--120: the check of the parsed structure and the loop, up to the content of
  the builder.
\<close>

definition render ::
  "Context \<Rightarrow> string \<Rightarrow> WhisperOutput \<Rightarrow> nat \<Rightarrow> (error + string) \<times> nat" where
  "render ctx jsonPath output polls =
     (case Transcription output of
        None \<Rightarrow> (Inl (MissingTranscription jsonPath), polls)
      | Some segments \<Rightarrow> segmentsLoop ctx 0 segments ('''', polls))"

subsection \<open>The emitted captions as data\<close>

text \<open>
  The test of line 112 that makes the loop \<^verbatim>\<open>continue\<close> without writing anything.
\<close>

definition skipped :: "Segment \<Rightarrow> bool" where
  "skipped segment \<longleftrightarrow>
     (case extractTimestamps segment of
        None \<Rightarrow> True
      | Some (startTime, endTime, _) \<Rightarrow> startTime = '''' \<or> endTime = '''')"

text \<open>
  What one pass of lines 116--119 prints: the number \<open>i + 1\<close>, the two times and the
  trimmed text.
\<close>

record Caption =
  caption_index :: nat
  caption_start :: string
  caption_end :: string
  caption_text :: string

definition captionBlock :: "Caption \<Rightarrow> string" where
  "captionBlock c =
     (Sprintf_d (caption_index c) @ [newline]) @
     (caption_start c @ '' --> '' @ caption_end c @ [newline]) @
     (caption_text c @ [newline, newline])"

text \<open>
  The captions written by the loop when it starts at index \<open>i\<close> and is not cancelled, in
  the order of writing. \<open>segmentsLoop_captions\<close> below shows that the builder receives
  exactly their blocks.
\<close>

fun captions :: "nat \<Rightarrow> Segment list \<Rightarrow> Caption list" where
  "captions i [] = []"
| "captions i (segment # rest) =
     (case extractTimestamps segment of
        None \<Rightarrow> []
      | Some (startTime, endTime, _) \<Rightarrow>
          if startTime = '''' \<or> endTime = '''' then captions (i + 1) rest
          else \<lparr>caption_index = i + 1, caption_start = startTime, caption_end = endTime,
                 caption_text = TrimSpace (segment_Text segment)\<rparr> # captions (i + 1) rest)"

subsection \<open>processFile (lines 78--130)\<close>

text \<open>\<^verbatim>\<open>strings.HasSuffix\<close> and \<^verbatim>\<open>strings.TrimSuffix\<close>.\<close>

definition HasSuffix :: "string \<Rightarrow> string \<Rightarrow> bool" where
  "HasSuffix s suffix \<longleftrightarrow>
     length suffix \<le> length s \<and> drop (length s - length suffix) s = suffix"

definition TrimSuffix :: "string \<Rightarrow> string \<Rightarrow> string" where
  "TrimSuffix s suffix =
     (if HasSuffix s suffix then take (length s - length suffix) s else s)"

text \<open>
  \<^verbatim>\<open>filepath.Ext\<close>: the suffix beginning at the final dot in the final element of the
  path, empty if there is no dot. The library scans from the last byte down to the first
  path separator, which is taken to be \<^verbatim>\<open>/\<close>.
\<close>

function ExtLoop :: "string \<Rightarrow> int \<Rightarrow> string" where
  "ExtLoop path i =
     (if i \<ge> 0 \<and> path ! nat i \<noteq> CHR ''/'' then
        (if path ! nat i = CHR ''.'' then drop (nat i) path else ExtLoop path (i - 1))
      else '''')"
  by pat_completeness auto
termination
  by (relation "measure (\<lambda>(path, i). nat (i + 1))") auto

declare ExtLoop.simps [simp del]

definition Ext :: "string \<Rightarrow> string" where
  "Ext path = ExtLoop path (int (length path) - 1)"

text \<open>Line 86.\<close>

definition srtPathOf :: "string \<Rightarrow> string" where
  "srtPathOf jsonPath = TrimSuffix jsonPath (Ext jsonPath) @ ''.srt''"

text \<open>What the program prints (lines 128 and 143) and logs (line 145).\<close>

datatype message =
    Started nat string
  | Generated string
  | Failed nat string error

text \<open>
  The environment of a run: the files \<^verbatim>\<open>os.ReadFile\<close> can read with their content, the
  paths at which \<^verbatim>\<open>os.WriteFile\<close> fails (such a call is taken to change nothing), the
  number of receive attempts made on \<^verbatim>\<open>ctx.Done()\<close>, and the messages printed so far.
\<close>

record World =
  files :: "string \<Rightarrow> string option"
  unwritable :: "string set"
  polls :: nat
  console :: "message list"

definition tick :: "World \<Rightarrow> World" where
  "tick w = w\<lparr>polls := polls w + 1\<rparr>"

definition bom :: string where
  "bom = [CHR 0xEF, CHR 0xBB, CHR 0xBF]"

text \<open>
  \<^verbatim>\<open>json.Unmarshal\<close> into a \<^verbatim>\<open>WhisperOutput\<close> belongs to the standard library; it is the
  parameter \<open>Unmarshal\<close>, with \<open>None\<close> for a returned error. The result is the returned
  error (\<open>None\<close> for \<^verbatim>\<open>nil\<close>) and the environment afterwards.
\<close>

definition processFile ::
  "Context \<Rightarrow> (string \<Rightarrow> WhisperOutput option) \<Rightarrow> string \<Rightarrow> World \<Rightarrow> error option \<times> World" where
  "processFile ctx Unmarshal jsonPath w0 =
     (if ctx (polls w0) then (Some Canceled, tick w0)
      else
        (let w = tick w0;
             srtPath = srtPathOf jsonPath in
         case files w jsonPath of
           None \<Rightarrow> (Some (ReadError jsonPath), w)
         | Some byteValue \<Rightarrow>
             (case Unmarshal byteValue of
                None \<Rightarrow> (Some (ParseError jsonPath), w)
              | Some output \<Rightarrow>
                  (case render ctx jsonPath output (polls w) of
                     (Inl err, polls') \<Rightarrow> (Some err, w\<lparr>polls := polls'\<rparr>)
                   | (Inr srt, polls') \<Rightarrow>
                       (let dataToWrite = bom @ srt in
                        if srtPath \<in> unwritable w
                        then (Some (WriteError srtPath), w\<lparr>polls := polls'\<rparr>)
                        else (None, w\<lparr>polls := polls',
                                       files := (files w)(srtPath \<mapsto> dataToWrite),
                                       console := console w @ [Generated srtPath]\<rparr>))))))"

subsection \<open>worker (lines 133--149)\<close>

text \<open>
  Lines 143--146, for a path received from the channel. A panic ends the whole program:
  that is the result \<open>None\<close>.
\<close>

definition processJob ::
  "Context \<Rightarrow> (string \<Rightarrow> WhisperOutput option) \<Rightarrow> nat \<Rightarrow> string \<Rightarrow> World \<Rightarrow> World option" where
  "processJob ctx Unmarshal wid jsonPath w0 =
     (let w = w0\<lparr>console := console w0 @ [Started wid jsonPath]\<rparr> in
      case processFile ctx Unmarshal jsonPath w of
        (None, w') \<Rightarrow> Some w'
      | (Some Panic, w') \<Rightarrow> None
      | (Some err, w') \<Rightarrow> Some (w'\<lparr>console := console w' @ [Failed wid jsonPath err]\<rparr>))"

text \<open>
  One worker, with the paths it receives from \<^verbatim>\<open>jobs\<close> until the channel is closed and
  empty. Every \<^verbatim>\<open>select\<close> is one receive attempt on \<^verbatim>\<open>ctx.Done()\<close>.
\<close>

fun worker ::
  "Context \<Rightarrow> (string \<Rightarrow> WhisperOutput option) \<Rightarrow> nat \<Rightarrow> string list \<Rightarrow> World \<Rightarrow> World option" where
  "worker ctx Unmarshal wid [] w = Some (tick w)"
| "worker ctx Unmarshal wid (jsonPath # rest) w =
     (if ctx (polls w) then Some (tick w)
      else
        (case processJob ctx Unmarshal wid jsonPath (tick w) of
           None \<Rightarrow> None
         | Some w' \<Rightarrow> worker ctx Unmarshal wid rest w'))"

subsection \<open>The pool of main (lines 181--199)\<close>

text \<open>
  \<^verbatim>\<open>main\<close> starts the workers \<open>1, \<dots>, numWorkers\<close> as goroutines that run in parallel, sends
  every path into the buffered channel, closes it and waits until every worker has
  returned. What the workers share is the channel, the console (standard output and the
  log) and the file system; a run of the pool is an interleaving of their accesses to
  these. \<open>processFile\<close> is therefore cut at its accesses: \<open>loadFile\<close> is the part up to
  the bytes to write (the entry check, \<^verbatim>\<open>os.ReadFile\<close> of line 87 and the computation that
  follows it, which touches nothing shared), \<open>writeFile\<close> is \<^verbatim>\<open>os.WriteFile\<close> of line 125,
  and the message of line 128 is printed by \<open>printMsg\<close>. \<open>processFile_pieces\<close> below
  shows that the three pieces in a row are \<open>processFile\<close>. A call of \<^verbatim>\<open>os.ReadFile\<close>, a
  call of \<^verbatim>\<open>os.WriteFile\<close> and the printing of one message are each taken as one access.
\<close>

definition printMsg :: "message \<Rightarrow> World \<Rightarrow> World" where
  "printMsg m w = w\<lparr>console := console w @ [m]\<rparr>"

definition loadFile ::
  "Context \<Rightarrow> (string \<Rightarrow> WhisperOutput option) \<Rightarrow> string \<Rightarrow> World \<Rightarrow> (error + string) \<times> World" where
  "loadFile ctx Unmarshal jsonPath w0 =
     (if ctx (polls w0) then (Inl Canceled, tick w0)
      else
        (let w = tick w0 in
         case files w jsonPath of
           None \<Rightarrow> (Inl (ReadError jsonPath), w)
         | Some byteValue \<Rightarrow>
             (case Unmarshal byteValue of
                None \<Rightarrow> (Inl (ParseError jsonPath), w)
              | Some output \<Rightarrow>
                  (case render ctx jsonPath output (polls w) of
                     (Inl err, polls') \<Rightarrow> (Inl err, w\<lparr>polls := polls'\<rparr>)
                   | (Inr srt, polls') \<Rightarrow> (Inr (bom @ srt), w\<lparr>polls := polls'\<rparr>)))))"

definition writeFile :: "string \<Rightarrow> string \<Rightarrow> World \<Rightarrow> error option \<times> World" where
  "writeFile srtPath dataToWrite w =
     (if srtPath \<in> unwritable w then (Some (WriteError srtPath), w)
      else (None, w\<lparr>files := (files w)(srtPath \<mapsto> dataToWrite)\<rparr>))"

text \<open>
  Where a worker stands in its code:
  \<^item> \<open>Idle\<close>: at the \<^verbatim>\<open>select\<close> of line 136;
  \<^item> \<open>Received p\<close>: it has received \<open>p\<close> (line 139) and not yet printed line 143;
  \<^item> \<open>Entered p\<close>: it has printed line 143 and is in \<open>processFile\<close> before line 87;
  \<^item> \<open>Writing p d\<close>: it is in \<open>processFile\<close> before line 125, with \<open>d\<close> the bytes to write;
  \<^item> \<open>Written p\<close>: it has written the file and not yet printed line 128;
  \<^item> \<open>Failing p e\<close>: \<open>processFile\<close> has returned the error \<open>e\<close> to line 144, before the
    log of line 145;
  \<^item> \<open>Returned\<close>: it has returned (line 141).
\<close>

datatype activity =
    Idle
  | Received string
  | Entered string
  | Writing string string
  | Written string
  | Failing string error
  | Returned

text \<open>
  A state of the pool: the paths \<^verbatim>\<open>main\<close> has not sent yet (lines 194--196), the paths in the
  channel, whether the channel is closed (line 197), the activity of each worker (the
  worker with the number \<open>k + 1\<close> at position \<open>k\<close>), whether a panic has ended the program,
  and the shared environment.
\<close>

record Pool =
  unsent :: "string list"
  jobs :: "string list"
  isClosed :: bool
  workers :: "activity list"
  crashed :: bool
  world :: World

text \<open>
  One step is one access of \<^verbatim>\<open>main\<close> or of one worker to what is shared, together with the
  computation of that goroutine up to its next access; who moves next is not determined.
  The channel has room for every path, so a send never waits. A worker at its \<^verbatim>\<open>select\<close>
  makes one receive attempt on \<^verbatim>\<open>ctx.Done()\<close>; if that does not succeed it takes a path
  from the channel, returns if the channel is closed and empty, and otherwise waits. A
  panic in one goroutine ends the program: after it no step is possible.
\<close>

inductive poolStep ::
  "Context \<Rightarrow> (string \<Rightarrow> WhisperOutput option) \<Rightarrow> Pool \<Rightarrow> Pool \<Rightarrow> bool"
  for ctx :: Context and Unmarshal :: "string \<Rightarrow> WhisperOutput option" where
  send:
    "\<not> crashed s \<Longrightarrow> unsent s = jsonPath # rest \<Longrightarrow>
     poolStep ctx Unmarshal s (s\<lparr>unsent := rest, jobs := jobs s @ [jsonPath]\<rparr>)"
| close:
    "\<not> crashed s \<Longrightarrow> unsent s = [] \<Longrightarrow> \<not> isClosed s \<Longrightarrow>
     poolStep ctx Unmarshal s (s\<lparr>isClosed := True\<rparr>)"
| cancelled:
    "\<not> crashed s \<Longrightarrow> k < length (workers s) \<Longrightarrow> workers s ! k = Idle \<Longrightarrow>
     ctx (polls (world s)) \<Longrightarrow>
     poolStep ctx Unmarshal s
       (s\<lparr>workers := (workers s)[k := Returned], world := tick (world s)\<rparr>)"
| receive:
    "\<not> crashed s \<Longrightarrow> k < length (workers s) \<Longrightarrow> workers s ! k = Idle \<Longrightarrow>
     \<not> ctx (polls (world s)) \<Longrightarrow> jobs s = jsonPath # rest \<Longrightarrow>
     poolStep ctx Unmarshal s
       (s\<lparr>jobs := rest, workers := (workers s)[k := Received jsonPath],
          world := tick (world s)\<rparr>)"
| closed:
    "\<not> crashed s \<Longrightarrow> k < length (workers s) \<Longrightarrow> workers s ! k = Idle \<Longrightarrow>
     \<not> ctx (polls (world s)) \<Longrightarrow> jobs s = [] \<Longrightarrow> isClosed s \<Longrightarrow>
     poolStep ctx Unmarshal s
       (s\<lparr>workers := (workers s)[k := Returned], world := tick (world s)\<rparr>)"
| announce:
    "\<not> crashed s \<Longrightarrow> k < length (workers s) \<Longrightarrow> workers s ! k = Received jsonPath \<Longrightarrow>
     poolStep ctx Unmarshal s
       (s\<lparr>workers := (workers s)[k := Entered jsonPath],
          world := printMsg (Started (k + 1) jsonPath) (world s)\<rparr>)"
| load:
    "\<not> crashed s \<Longrightarrow> k < length (workers s) \<Longrightarrow> workers s ! k = Entered jsonPath \<Longrightarrow>
     loadFile ctx Unmarshal jsonPath (world s) = (r, w') \<Longrightarrow>
     poolStep ctx Unmarshal s
       (s\<lparr>workers := (workers s)
            [k := (case r of Inl err \<Rightarrow> Failing jsonPath err
                   | Inr dataToWrite \<Rightarrow> Writing jsonPath dataToWrite)],
          world := w'\<rparr>)"
| store:
    "\<not> crashed s \<Longrightarrow> k < length (workers s) \<Longrightarrow>
     workers s ! k = Writing jsonPath dataToWrite \<Longrightarrow>
     writeFile (srtPathOf jsonPath) dataToWrite (world s) = (r, w') \<Longrightarrow>
     poolStep ctx Unmarshal s
       (s\<lparr>workers := (workers s)
            [k := (case r of None \<Rightarrow> Written jsonPath | Some err \<Rightarrow> Failing jsonPath err)],
          world := w'\<rparr>)"
| report:
    "\<not> crashed s \<Longrightarrow> k < length (workers s) \<Longrightarrow> workers s ! k = Written jsonPath \<Longrightarrow>
     poolStep ctx Unmarshal s
       (s\<lparr>workers := (workers s)[k := Idle],
          world := printMsg (Generated (srtPathOf jsonPath)) (world s)\<rparr>)"
| logFailure:
    "\<not> crashed s \<Longrightarrow> k < length (workers s) \<Longrightarrow> workers s ! k = Failing jsonPath err \<Longrightarrow>
     err \<noteq> Panic \<Longrightarrow>
     poolStep ctx Unmarshal s
       (s\<lparr>workers := (workers s)[k := Idle],
          world := printMsg (Failed (k + 1) jsonPath err) (world s)\<rparr>)"
| panic:
    "\<not> crashed s \<Longrightarrow> k < length (workers s) \<Longrightarrow> workers s ! k = Failing jsonPath Panic \<Longrightarrow>
     poolStep ctx Unmarshal s (s\<lparr>crashed := True\<rparr>)"

text \<open>
  The state after the loop of lines 189--192: nothing is sent yet and every worker is at
  its \<^verbatim>\<open>select\<close>. Then the runs from a state.
\<close>

definition poolStart :: "nat \<Rightarrow> string list \<Rightarrow> World \<Rightarrow> Pool" where
  "poolStart numWorkers jsonPaths w =
     \<lparr>unsent = jsonPaths, jobs = [], isClosed = False,
      workers = replicate numWorkers Idle, crashed = False, world = w\<rparr>"

inductive poolRun ::
  "Context \<Rightarrow> (string \<Rightarrow> WhisperOutput option) \<Rightarrow> Pool \<Rightarrow> Pool \<Rightarrow> bool"
  for ctx :: Context and Unmarshal :: "string \<Rightarrow> WhisperOutput option" where
  stay: "poolRun ctx Unmarshal s s"
| move: "poolRun ctx Unmarshal s s' \<Longrightarrow> poolStep ctx Unmarshal s' s'' \<Longrightarrow>
         poolRun ctx Unmarshal s s''"

text \<open>\<^verbatim>\<open>wg.Wait()\<close> returns when every worker has returned.\<close>

definition finished :: "Pool \<Rightarrow> bool" where
  "finished s \<longleftrightarrow> \<not> crashed s \<and> (\<forall>a \<in> set (workers s). a = Returned)"

text \<open>The paths of the \<open>Started\<close> messages, in the order of printing.\<close>

fun started :: "message list \<Rightarrow> string list" where
  "started [] = []"
| "started (Started wid jsonPath # ms) = jsonPath # started ms"
| "started (m # ms) = started ms"

text \<open>
  The verdicts among the messages, in the order of printing: a generated file (line 128)
  or a logged failure (line 145), without the number of the worker.
\<close>

datatype verdict = Success string | Failure string error

fun verdicts :: "message list \<Rightarrow> verdict list" where
  "verdicts [] = []"
| "verdicts (Started wid jsonPath # ms) = verdicts ms"
| "verdicts (Generated srtPath # ms) = Success srtPath # verdicts ms"
| "verdicts (Failed wid jsonPath err # ms) = Failure jsonPath err # verdicts ms"

text \<open>
  The verdict a file has when \<open>processFile\<close> processes it alone in the environment \<open>w\<close>.
\<close>

definition ownVerdict ::
  "(string \<Rightarrow> WhisperOutput option) \<Rightarrow> World \<Rightarrow> string \<Rightarrow> verdict" where
  "ownVerdict Unmarshal w jsonPath =
     (case fst (processFile Background Unmarshal jsonPath w) of
        None \<Rightarrow> Success (srtPathOf jsonPath)
      | Some err \<Rightarrow> Failure jsonPath err)"

text \<open>
  The path a worker has received and not yet announced, the path it is working on, and
  the path it has in hand before the write.
\<close>

fun awaiting :: "activity \<Rightarrow> string list" where
  "awaiting (Received jsonPath) = [jsonPath]"
| "awaiting a = []"

fun inFlight :: "activity \<Rightarrow> string list" where
  "inFlight Idle = []"
| "inFlight Returned = []"
| "inFlight (Received jsonPath) = [jsonPath]"
| "inFlight (Entered jsonPath) = [jsonPath]"
| "inFlight (Writing jsonPath dataToWrite) = [jsonPath]"
| "inFlight (Written jsonPath) = [jsonPath]"
| "inFlight (Failing jsonPath err) = [jsonPath]"

fun beforeWrite :: "activity \<Rightarrow> string list" where
  "beforeWrite (Received jsonPath) = [jsonPath]"
| "beforeWrite (Entered jsonPath) = [jsonPath]"
| "beforeWrite (Writing jsonPath dataToWrite) = [jsonPath]"
| "beforeWrite a = []"

text \<open>
  What a worker holds agrees with what its file gives when it is processed alone in the
  environment \<open>w\<close>.
\<close>

fun agrees ::
  "(string \<Rightarrow> WhisperOutput option) \<Rightarrow> World \<Rightarrow> string list \<Rightarrow> activity \<Rightarrow> bool" where
  "agrees Unmarshal w jsonPaths Idle = True"
| "agrees Unmarshal w jsonPaths Returned = True"
| "agrees Unmarshal w jsonPaths (Received jsonPath) = (jsonPath \<in> set jsonPaths)"
| "agrees Unmarshal w jsonPaths (Entered jsonPath) = (jsonPath \<in> set jsonPaths)"
| "agrees Unmarshal w jsonPaths (Writing jsonPath dataToWrite) =
     (jsonPath \<in> set jsonPaths
      \<and> fst (loadFile Background Unmarshal jsonPath w) = Inr dataToWrite)"
| "agrees Unmarshal w jsonPaths (Written jsonPath) =
     (jsonPath \<in> set jsonPaths
      \<and> fst (processFile Background Unmarshal jsonPath w) = None)"
| "agrees Unmarshal w jsonPaths (Failing jsonPath err) =
     (jsonPath \<in> set jsonPaths
      \<and> fst (processFile Background Unmarshal jsonPath w) = Some err)"

text \<open>
  A bound on the number of steps that are left: every step makes it smaller.
\<close>

fun weight :: "activity \<Rightarrow> nat" where
  "weight Returned = 0"
| "weight Idle = 1"
| "weight (Failing jsonPath err) = 2"
| "weight (Written jsonPath) = 3"
| "weight (Writing jsonPath dataToWrite) = 4"
| "weight (Entered jsonPath) = 5"
| "weight (Received jsonPath) = 6"

definition remaining :: "Pool \<Rightarrow> nat" where
  "remaining s =
     (if crashed s then 0 else 1) + 7 * length (unsent s) + (if isClosed s then 0 else 1) +
     6 * length (jobs s) + sum_list (map weight (workers s))"

text \<open>
  Over all workers: the paths received and not yet announced, the verdicts of the paths
  in work, and the paths in hand before their write.
\<close>

definition awaited :: "activity list \<Rightarrow> string multiset" where
  "awaited ws = sum_list (map (\<lambda>a. mset (awaiting a)) ws)"

definition pendingVerdicts ::
  "(string \<Rightarrow> WhisperOutput option) \<Rightarrow> World \<Rightarrow> activity list \<Rightarrow> verdict multiset" where
  "pendingVerdicts Unmarshal w ws =
     sum_list (map (\<lambda>a. mset (map (ownVerdict Unmarshal w) (inFlight a))) ws)"

definition unwrittenPaths :: "activity list \<Rightarrow> string multiset" where
  "unwrittenPaths ws = sum_list (map (\<lambda>a. mset (beforeWrite a)) ws)"

subsection \<open>Auxiliary notions\<close>

text \<open>No sequence is empty and none begins with another one.\<close>

definition prefixFree :: "string list \<Rightarrow> bool" where
  "prefixFree runes \<longleftrightarrow>
     [] \<notin> set runes \<and> (\<forall>a \<in> set runes. \<forall>b \<in> set runes. HasPrefix a b \<longrightarrow> a = b)"

text \<open>The number that a string of decimal digits denotes.\<close>

definition digitValue :: "char \<Rightarrow> nat" where
  "digitValue c = of_char c - 48"

definition decimalValue :: "string \<Rightarrow> nat" where
  "decimalValue s = foldl (\<lambda>acc c. 10 * acc + digitValue c) 0 s"

subsection \<open>Example inputs\<close>

text \<open>A token and a segment from their fields, in the order of the JSON input.\<close>

definition mkToken :: "string \<Rightarrow> string \<Rightarrow> string \<Rightarrow> Token" where
  "mkToken txt t0 t1 = \<lparr>token_Text = txt, token_Timestamps = \<lparr>From = t0, To = t1\<rparr>\<rparr>"

definition mkSegment :: "string \<Rightarrow> string \<Rightarrow> string \<Rightarrow> Token list \<Rightarrow> Segment" where
  "mkSegment t0 t1 txt tokens =
     \<lparr>segment_Timestamps = \<lparr>From = t0, To = t1\<rparr>, segment_Text = txt, segment_Tokens = tokens\<rparr>"

text \<open>A noise marker followed by two words.\<close>

definition helloWorld :: Segment where
  "helloWorld =
     mkSegment ''00:00:00,000'' ''00:00:03,000'' '' hello world''
       [mkToken ''[_BEG_]'' ''00:00:00,000'' ''00:00:00,000'',
        mkToken '' hello'' ''00:00:00,500'' ''00:00:01,200'',
        mkToken '' world'' ''00:00:01,200'' ''00:00:02,400'',
        mkToken ''[_TT_120]'' ''00:00:02,400'' ''00:00:02,400'']"

text \<open>The only word has no start time, but an end time.\<close>

definition halfTimed :: Segment where
  "halfTimed =
     mkSegment ''00:00:01,000'' ''00:00:02,000'' '' hi''
       [mkToken ''[_BEG_]'' ''00:00:00,000'' ''00:00:00,000'',
        mkToken '' hi'' '''' ''00:00:01,500'']"

text \<open>No tokens, segment times present, text with white space around it.\<close>

definition plainHi :: Segment where
  "plainHi = mkSegment ''00:00:01,000'' ''00:00:02,000'' ''  hi  '' []"

text \<open>Only a noise marker and no segment times.\<close>

definition untimed :: Segment where
  "untimed = mkSegment '''' '''' ''lost'' [mkToken ''[_BEG_]'' ''00:00:00,000'' ''00:00:00,000'']"

text \<open>The text of the segment itself carries a marker.\<close>

definition taggedText :: Segment where
  "taggedText =
     mkSegment ''00:00:00,000'' ''00:00:01,000'' ''[_BEG_] hi''
       [mkToken ''[_BEG_]'' ''00:00:00,000'' ''00:00:00,000'',
        mkToken '' hi'' ''00:00:00,000'' ''00:00:01,000'']"

text \<open>The text is a blank followed by an ideographic space (U+3000).\<close>

definition blankText :: Segment where
  "blankText =
     mkSegment ''00:00:04,000'' ''00:00:05,000'' ([CHR 0x20] @ [CHR 0xE3, CHR 0x80, CHR 0x80]) []"

text \<open>
  The JSON text of a document, as the transcription tool writes it. The strings of the
  examples contain nothing that JSON escapes, so a string is written between two quotation
  marks as it is.
\<close>

definition jsonString :: "string \<Rightarrow> string" where
  "jsonString s = [CHR 0x22] @ s @ [CHR 0x22]"

fun commaSeparated :: "string list \<Rightarrow> string" where
  "commaSeparated [] = ''''"
| "commaSeparated [x] = x"
| "commaSeparated (x # y # ys) = x @ '','' @ commaSeparated (y # ys)"

definition jsonTimestamp :: "Timestamp \<Rightarrow> string" where
  "jsonTimestamp t =
     ''{'' @ jsonString ''from'' @ '':'' @ jsonString (From t) @ '','' @
     jsonString ''to'' @ '':'' @ jsonString (To t) @ ''}''"

definition jsonToken :: "Token \<Rightarrow> string" where
  "jsonToken token =
     ''{'' @ jsonString ''text'' @ '':'' @ jsonString (token_Text token) @ '','' @
     jsonString ''timestamps'' @ '':'' @ jsonTimestamp (token_Timestamps token) @ ''}''"

definition jsonSegment :: "Segment \<Rightarrow> string" where
  "jsonSegment segment =
     ''{'' @ jsonString ''timestamps'' @ '':'' @ jsonTimestamp (segment_Timestamps segment) @
     '','' @ jsonString ''text'' @ '':'' @ jsonString (segment_Text segment) @ '','' @
     jsonString ''tokens'' @ '':['' @ commaSeparated (map jsonToken (segment_Tokens segment)) @
     '']}''"

definition jsonDocument :: "Segment list \<Rightarrow> string" where
  "jsonDocument segments =
     ''{'' @ jsonString ''transcription'' @ '':['' @
     commaSeparated (map jsonSegment segments) @ '']}''"

text \<open>
  A talk of three segments: one with times of its own, one without any times, and one
  timed by its words.
\<close>

definition talk :: "Segment list" where
  "talk = [plainHi, untimed, helloWorld]"

text \<open>A parser for the examples: it knows three file contents.\<close>

definition emptyTranscription :: string where
  "emptyTranscription = ''{'' @ [CHR 0x22] @ ''transcription'' @ [CHR 0x22] @ '':[]}''"

definition exampleUnmarshal :: "string \<Rightarrow> WhisperOutput option" where
  "exampleUnmarshal byteValue =
     (if byteValue = emptyTranscription then Some \<lparr>Transcription = Some []\<rparr>
      else if byteValue = ''{}'' then Some \<lparr>Transcription = None\<rparr>
      else if byteValue = jsonDocument talk then Some \<lparr>Transcription = Some talk\<rparr>
      else None)"

text \<open>
  A directory with an empty transcription, a document without one, a broken file and the
  talk.
\<close>

definition exampleWorld :: World where
  "exampleWorld =
     \<lparr>files = [''empty.json'' \<mapsto> emptyTranscription, ''missing.json'' \<mapsto> ''{}'',
               ''broken.json'' \<mapsto> ''{'', ''talk.json'' \<mapsto> jsonDocument talk],
      unwritable = {}, polls = 0, console = []\<rparr>"

text \<open>The subtitle file of the talk: the byte-order mark and the blocks 1 and 3.\<close>

definition talkSrt :: string where
  "talkSrt =
     bom @ ''1'' @ [newline] @ ''00:00:01,000 --> 00:00:02,000'' @ [newline] @ ''hi'' @
     [newline, newline] @
     ''3'' @ [newline] @ ''00:00:00,500 --> 00:00:02,400'' @ [newline] @ ''hello world'' @
     [newline, newline]"

text \<open>
  The end of a run of two workers over \<open>missing.json\<close> and \<open>talk.json\<close>, sent in this order,
  in which worker 2 is the first to announce its file.
\<close>

definition exampleFinal :: Pool where
  "exampleFinal =
     \<lparr>unsent = [], jobs = [], isClosed = True, workers = [Returned, Returned],
      crashed = False,
      world =
        \<lparr>files = (files exampleWorld)(''talk.srt'' \<mapsto> talkSrt), unwritable = {}, polls = 9,
         console =
           [Started 2 ''talk.json'', Started 1 ''missing.json'',
            Failed 1 ''missing.json'' (MissingTranscription ''missing.json''),
            Generated ''talk.srt'']\<rparr>\<rparr>"

section \<open>Properties\<close>

subsection \<open>Lists\<close>

lemma find_SomeD: "find P xs = Some x \<Longrightarrow> P x \<and> x \<in> set xs"
  by (auto simp: find_Some_iff)

subsection \<open>The two scans of extractTimestamps\<close>

lemma forwardLoop_find:
  "forwardLoop tokens (s, h) =
     (case find nonNoise tokens of None \<Rightarrow> (s, h)
      | Some t \<Rightarrow> (From (token_Timestamps t), True))"
  by (induction tokens) auto

lemma backwardLoop_find:
  "n \<le> length tokens \<Longrightarrow>
   backwardLoop tokens (int n - 1) (e, h) =
     Some (case find nonNoise (rev (take n tokens)) of None \<Rightarrow> (e, h)
           | Some t \<Rightarrow> (To (token_Timestamps t), True))"
proof (induction n)
  case 0
  then show ?case by (simp add: backwardLoop.simps)
next
  case (Suc n)
  then have n: "n < length tokens" by simp
  have "backwardLoop tokens (int (Suc n) - 1) (e, h) =
          (if nonNoise (tokens ! n) then Some (To (token_Timestamps (tokens ! n)), True)
           else backwardLoop tokens (int n - 1) (e, h))"
    using n by (subst backwardLoop.simps) simp
  moreover have "rev (take (Suc n) tokens) = tokens ! n # rev (take n tokens)"
    using n by (simp add: take_Suc_conv_app_nth)
  ultimately show ?case using Suc.IH n by simp
qed

lemma find_rev_None: "find P (rev xs) = None \<longleftrightarrow> find P xs = None"
  by (simp add: find_None_iff)

text \<open>
  The result in closed form: the first and the last non-noise token decide, and the
  index expression of the backward loop never leaves the slice.
\<close>

lemma extractTimestamps_eq:
  "extractTimestamps segment =
     Some (case find nonNoise (segment_Tokens segment) of
             None \<Rightarrow> (From (segment_Timestamps segment), To (segment_Timestamps segment), False)
           | Some a \<Rightarrow>
               (case find nonNoise (rev (segment_Tokens segment)) of
                  None \<Rightarrow> (From (segment_Timestamps segment), To (segment_Timestamps segment), True)
                | Some b \<Rightarrow>
                    if From (token_Timestamps a) = '''' \<or> To (token_Timestamps b) = ''''
                    then (From (segment_Timestamps segment), To (segment_Timestamps segment), True)
                    else (From (token_Timestamps a), To (token_Timestamps b), True)))"
proof -
  have b: "backwardLoop (segment_Tokens segment) (int (length (segment_Tokens segment)) - 1) ('''', h) =
     Some (case find nonNoise (rev (segment_Tokens segment)) of None \<Rightarrow> ('''', h)
           | Some t \<Rightarrow> (To (token_Timestamps t), True))" for h
    using backwardLoop_find [of "length (segment_Tokens segment)" "segment_Tokens segment" "''''" h]
    by simp
  show ?thesis
  proof (cases "find nonNoise (segment_Tokens segment)")
    case None
    then have "find nonNoise (rev (segment_Tokens segment)) = None"
      by (simp add: find_rev_None)
    with None show ?thesis
      by (simp add: extractTimestamps_def forwardLoop_find b)
  next
    case (Some a)
    then obtain c where "find nonNoise (rev (segment_Tokens segment)) = Some c"
      using find_rev_None [of nonNoise "segment_Tokens segment"] by fastforce
    with Some show ?thesis
      by (simp add: extractTimestamps_def forwardLoop_find b)
  qed
qed

lemma extractTimestamps_total: "\<exists>s e h. extractTimestamps segment = Some (s, e, h)"
proof -
  obtain x where "extractTimestamps segment = Some x"
    using extractTimestamps_eq [of segment] by blast
  then show ?thesis by (cases x) simp
qed

subsection \<open>White space\<close>

lemma HasPrefix_append_self: "HasPrefix (w @ rest) w"
  by (simp add: HasPrefix_def)

lemma HasPrefix_decomp: "HasPrefix s r \<Longrightarrow> s = r @ drop (length r) s"
  by (metis HasPrefix_def append_take_drop_id)

lemma HasPrefix_comparable:
  assumes "HasPrefix s a" and "HasPrefix s b"
  shows "HasPrefix a b \<or> HasPrefix b a"
proof (cases "length b \<le> length a")
  case True
  have "take (length b) a = take (length b) (take (length a) s)"
    using assms(1) by (simp add: HasPrefix_def)
  also have "\<dots> = take (length b) s"
    using True by (simp add: min_def)
  also have "\<dots> = b"
    using assms(2) by (simp add: HasPrefix_def)
  finally show ?thesis using True by (simp add: HasPrefix_def)
next
  case False
  then have le: "length a \<le> length b" by simp
  have "take (length a) b = take (length a) (take (length b) s)"
    using assms(2) by (simp add: HasPrefix_def)
  also have "\<dots> = take (length a) s"
    using le by (simp add: min_def)
  also have "\<dots> = a"
    using assms(1) by (simp add: HasPrefix_def)
  finally show ?thesis using le by (simp add: HasPrefix_def)
qed

lemma prefixFree_spaceRunes: "prefixFree spaceRunes"
  by (simp add: prefixFree_def spaceRunes_def HasPrefix_def)

lemma prefixFree_rev_spaceRunes: "prefixFree (map rev spaceRunes)"
  by (simp add: prefixFree_def spaceRunes_def HasPrefix_def)

lemma leadingRune_append:
  assumes "prefixFree runes" and "w \<in> set runes"
  shows "leadingRune runes (w @ rest) = Some w"
proof -
  have "\<exists>r. find (HasPrefix (w @ rest)) runes = Some r"
    using assms(2) HasPrefix_append_self [of w rest]
    by (cases "find (HasPrefix (w @ rest)) runes") (auto simp: find_None_iff)
  then obtain r where r: "find (HasPrefix (w @ rest)) runes = Some r" ..
  then have "r \<in> set runes" and "HasPrefix (w @ rest) r"
    by (auto dest: find_SomeD)
  then have "HasPrefix w r \<or> HasPrefix r w"
    using HasPrefix_comparable [OF HasPrefix_append_self] by blast
  with \<open>r \<in> set runes\<close> assms have "r = w"
    by (auto simp: prefixFree_def)
  with r show ?thesis by (simp add: leadingRune_def)
qed

lemma trimLeading_Nil: "trimLeading runes [] = []"
proof -
  have "leadingRune runes [] = Some r \<Longrightarrow> r = []" for r
    by (auto simp: leadingRune_def HasPrefix_def dest: find_SomeD)
  then show ?thesis
    by (subst trimLeading.simps) (auto split: option.split)
qed

lemma trimLeading_concat:
  assumes "prefixFree runes" and "set ws \<subseteq> set runes"
  shows "trimLeading runes (concat ws @ t) = trimLeading runes t"
  using assms(2)
proof (induction ws)
  case Nil
  then show ?case by simp
next
  case (Cons w ws)
  then have w: "w \<in> set runes" and "w \<noteq> []"
    using assms(1) by (auto simp: prefixFree_def)
  have "trimLeading runes (w @ (concat ws @ t)) = trimLeading runes (concat ws @ t)"
    using leadingRune_append [OF assms(1) w] \<open>w \<noteq> []\<close>
    by (subst trimLeading.simps) simp
  with Cons show ?case by simp
qed

lemma trimLeading_decomp:
  "\<exists>ws. set ws \<subseteq> set runes \<and> s = concat ws @ trimLeading runes s"
proof (induction runes s rule: trimLeading.induct)
  case (1 runes s)
  show ?case
  proof (cases "leadingRune runes s")
    case None
    then have "trimLeading runes s = s"
      by (subst trimLeading.simps) simp
    then have "set [] \<subseteq> set runes \<and> s = concat [] @ trimLeading runes s" by simp
    then show ?thesis by blast
  next
    case (Some r)
    show ?thesis
    proof (cases "r = []")
      case True
      with Some have "trimLeading runes s = s"
        by (subst trimLeading.simps) simp
      then have "set [] \<subseteq> set runes \<and> s = concat [] @ trimLeading runes s" by simp
      then show ?thesis by blast
    next
      case False
      from Some have r: "r \<in> set runes" "HasPrefix s r"
        by (auto simp: leadingRune_def dest: find_SomeD)
      from "1.IH" [OF Some False] obtain ws where
        ws: "set ws \<subseteq> set runes" "drop (length r) s = concat ws @ trimLeading runes (drop (length r) s)"
        by blast
      have t: "trimLeading runes s = trimLeading runes (drop (length r) s)"
        using Some False by (subst trimLeading.simps) simp
      have "s = r @ drop (length r) s"
        using r(2) by (rule HasPrefix_decomp)
      then have "s = concat (r # ws) @ trimLeading runes s"
        using ws(2) t by simp
      moreover have "set (r # ws) \<subseteq> set runes"
        using r(1) ws(1) by simp
      ultimately show ?thesis by blast
    qed
  qed
qed

lemma trimLeading_no_leading:
  "[] \<notin> set runes \<Longrightarrow> leadingRune runes (trimLeading runes s) = None"
proof (induction runes s rule: trimLeading.induct)
  case (1 runes s)
  show ?case
  proof (cases "leadingRune runes s")
    case None
    then show ?thesis by (subst trimLeading.simps) simp
  next
    case (Some r)
    then have "r \<in> set runes"
      by (auto simp: leadingRune_def dest: find_SomeD)
    with "1.prems" have "r \<noteq> []" by auto
    with Some "1.IH" [OF Some this "1.prems"] show ?thesis
      by (subst trimLeading.simps) simp
  qed
qed

lemma TrimSpace_white: "set ws \<subseteq> set spaceRunes \<Longrightarrow> TrimSpace (concat ws) = []"
  using trimLeading_concat [OF prefixFree_spaceRunes, of ws "[]"]
  by (simp add: TrimSpace_def TrimLeft_def TrimRight_def trimLeading_Nil)

lemma TrimLeft_decomp:
  "\<exists>ls. set ls \<subseteq> set spaceRunes \<and> s = concat ls @ TrimLeft s"
  unfolding TrimLeft_def by (rule trimLeading_decomp)

lemma TrimRight_decomp:
  "\<exists>rs. set rs \<subseteq> set spaceRunes \<and> s = TrimRight s @ concat rs"
proof -
  obtain ws where ws: "set ws \<subseteq> set (map rev spaceRunes)"
      "rev s = concat ws @ trimLeading (map rev spaceRunes) (rev s)"
    using trimLeading_decomp by blast
  have "s = rev (rev s)" by simp
  also have "\<dots> = TrimRight s @ rev (concat ws)"
    by (subst ws(2)) (simp add: TrimRight_def)
  also have "rev (concat ws) = concat (map rev (rev ws))"
    by (simp add: rev_concat rev_map)
  finally have "s = TrimRight s @ concat (map rev (rev ws))" .
  moreover have "set (map rev (rev ws)) \<subseteq> set spaceRunes"
    using ws(1) by force
  ultimately show ?thesis by blast
qed

lemma HasPrefix_append: "HasPrefix u r \<Longrightarrow> HasPrefix (u @ x) r"
  by (simp add: HasPrefix_def)

lemma leadingRune_None_prefix:
  "leadingRune runes (u @ x) = None \<Longrightarrow> leadingRune runes u = None"
  by (auto simp: leadingRune_def find_None_iff dest: HasPrefix_append)

lemma TrimSpace_decomp:
  "\<exists>ls rs. set ls \<subseteq> set spaceRunes \<and> set rs \<subseteq> set spaceRunes
      \<and> s = concat ls @ TrimSpace s @ concat rs
      \<and> leadingRune spaceRunes (TrimSpace s) = None
      \<and> leadingRune (map rev spaceRunes) (rev (TrimSpace s)) = None"
proof -
  obtain ls where ls: "set ls \<subseteq> set spaceRunes" "s = concat ls @ TrimLeft s"
    using TrimLeft_decomp by blast
  obtain rs where rs: "set rs \<subseteq> set spaceRunes" "TrimLeft s = TrimSpace s @ concat rs"
    using TrimRight_decomp [of "TrimLeft s"] by (auto simp: TrimSpace_def)
  have "leadingRune spaceRunes (TrimLeft s) = None"
    using prefixFree_spaceRunes by (simp add: TrimLeft_def trimLeading_no_leading prefixFree_def)
  then have a: "leadingRune spaceRunes (TrimSpace s) = None"
    using rs(2) leadingRune_None_prefix by metis
  have b: "leadingRune (map rev spaceRunes) (rev (TrimSpace s)) = None"
    using prefixFree_rev_spaceRunes
    by (simp add: TrimSpace_def TrimRight_def trimLeading_no_leading prefixFree_def)
  from ls rs a b show ?thesis by (metis append.assoc)
qed

subsection \<open>Decimal numbers\<close>

lemma digit_cases:
  assumes "d < (10::nat)"
  shows "d \<in> {0, 1, 2, 3, 4, 5, 6, 7, 8, 9}"
  using assms by auto

lemma digitValue_digit: "d < 10 \<Longrightarrow> digitValue (''0123456789'' ! d) = d"
  using digit_cases [of d] by (auto simp: digitValue_def)

lemma digit_in_digits: "d < 10 \<Longrightarrow> ''0123456789'' ! d \<in> set ''0123456789''"
  using digit_cases [of d] by auto

lemma digit_zero: "d < 10 \<Longrightarrow> ''0123456789'' ! d = CHR ''0'' \<longleftrightarrow> d = 0"
  using digit_cases [of d] by auto

lemma Sprintf_d_digits: "set (Sprintf_d n) \<subseteq> set ''0123456789''"
proof (induction n rule: Sprintf_d.induct)
  case (1 n)
  show ?case
  proof (cases "n < 10")
    case True
    then show ?thesis
      using digit_in_digits [of n] by (subst Sprintf_d.simps) simp
  next
    case False
    moreover have "''0123456789'' ! (n mod 10) \<in> set ''0123456789''"
      by (rule digit_in_digits) simp
    ultimately show ?thesis
      using "1.IH" by (subst Sprintf_d.simps) simp
  qed
qed

lemma Sprintf_d_nonempty: "Sprintf_d n \<noteq> []"
  by (subst Sprintf_d.simps) simp

lemma decimalValue_snoc: "decimalValue (s @ [c]) = 10 * decimalValue s + digitValue c"
  by (simp add: decimalValue_def)

lemma Sprintf_d_value: "decimalValue (Sprintf_d n) = n"
proof (induction n rule: Sprintf_d.induct)
  case (1 n)
  show ?case
  proof (cases "n < 10")
    case True
    then show ?thesis
      using digitValue_digit [of n] by (subst Sprintf_d.simps) (simp add: decimalValue_def)
  next
    case False
    have "digitValue (''0123456789'' ! (n mod 10)) = n mod 10"
      by (rule digitValue_digit) simp
    with False "1.IH" show ?thesis
      by (subst Sprintf_d.simps) (simp add: decimalValue_snoc)
  qed
qed

lemma Sprintf_d_leading: "0 < n \<Longrightarrow> hd (Sprintf_d n) \<noteq> CHR ''0''"
proof (induction n rule: Sprintf_d.induct)
  case (1 n)
  show ?case
  proof (cases "n < 10")
    case True
    with "1.prems" show ?thesis
      using digit_zero [of n] by (subst Sprintf_d.simps) simp
  next
    case False
    then have "0 < n div 10" by simp
    with False "1.IH" have "hd (Sprintf_d (n div 10)) \<noteq> CHR ''0''" by simp
    with False show ?thesis
      by (subst Sprintf_d.simps) (simp add: Sprintf_d_nonempty)
  qed
qed

subsection \<open>The segment loop\<close>

lemma segmentsLoop_never_cancelled:
  assumes "\<And>n. \<not> ctx n"
  shows "segmentsLoop ctx i segments (b, p) =
     (Inr (b @ concat (map captionBlock (captions i segments))), p + length segments)"
proof (induction segments arbitrary: i b p)
  case Nil
  then show ?case by simp
next
  case (Cons segment rest)
  obtain s e h where x: "extractTimestamps segment = Some (s, e, h)"
    using extractTimestamps_total by blast
  show ?case
  proof (cases "s = '''' \<or> e = ''''")
    case True
    with x Cons assms [of p] show ?thesis by simp
  next
    case False
    with x assms [of p] show ?thesis
      by (simp add: Cons captionBlock_def)
  qed
qed

lemma segmentsLoop_captions:
  "segmentsLoop Background i segments (b, p) =
     (Inr (b @ concat (map captionBlock (captions i segments))), p + length segments)"
  by (rule segmentsLoop_never_cancelled) (simp add: Background_def)

lemma segmentsLoop_error:
  "fst (segmentsLoop ctx i segments (b, p)) = Inl err \<Longrightarrow> err = Canceled"
proof (induction segments arbitrary: i b p)
  case Nil
  then show ?case by simp
next
  case (Cons segment rest)
  obtain s e h where x: "extractTimestamps segment = Some (s, e, h)"
    using extractTimestamps_total by blast
  show ?case
  proof (cases "ctx p")
    case True
    with Cons.prems show ?thesis by simp
  next
    case False
    with x Cons.prems Cons.IH show ?thesis
      by (cases "s = '''' \<or> e = ''''") (simp_all add: Let_def)
  qed
qed

lemma render_Background:
  "render Background jsonPath \<lparr>Transcription = Some segments\<rparr> p =
     (Inr (concat (map captionBlock (captions 0 segments))), p + length segments)"
  by (simp add: render_def segmentsLoop_captions)

lemma skipped_iff:
  "extractTimestamps segment = Some (s, e, h) \<Longrightarrow> skipped segment \<longleftrightarrow> s = '''' \<or> e = ''''"
  by (simp add: skipped_def)

lemma captions_Cons:
  "captions i (segment # rest) =
     (if skipped segment then captions (i + 1) rest
      else \<lparr>caption_index = i + 1,
             caption_start = fst (the (extractTimestamps segment)),
             caption_end = fst (snd (the (extractTimestamps segment))),
             caption_text = TrimSpace (segment_Text segment)\<rparr> # captions (i + 1) rest)"
proof -
  obtain s e h where x: "extractTimestamps segment = Some (s, e, h)"
    using extractTimestamps_total by blast
  then show ?thesis by (simp add: skipped_def)
qed

lemma captions_indices:
  "map caption_index (captions i segments) =
     map (\<lambda>(k, segment). k + 1) (filter (\<lambda>(k, segment). \<not> skipped segment) (enumerate i segments))"
  by (induction segments arbitrary: i) (simp_all add: captions_Cons del: captions.simps(2))

lemma captions_texts:
  "map caption_text (captions i segments) =
     map (\<lambda>segment. TrimSpace (segment_Text segment)) (filter (\<lambda>segment. \<not> skipped segment) segments)"
  by (induction segments arbitrary: i) (simp_all add: captions_Cons del: captions.simps(2))

lemma captions_indices_increasing:
  "sorted_wrt (<) (map caption_index (captions i segments))"
proof -
  have "sorted_wrt (<) (map fst (enumerate i segments))"
    by simp
  then have "sorted_wrt (<) (map fst (filter (\<lambda>(k, segment). \<not> skipped segment) (enumerate i segments)))"
    unfolding sorted_wrt_map by (rule sorted_wrt_filter)
  then have "sorted_wrt (<) (map (\<lambda>(k, segment). k + 1) (filter (\<lambda>(k, segment). \<not> skipped segment) (enumerate i segments)))"
    by (simp add: sorted_wrt_map case_prod_beta)
  then show ?thesis by (simp only: captions_indices)
qed

lemma captions_indices_bounds:
  "c \<in> set (captions i segments) \<Longrightarrow> i < caption_index c \<and> caption_index c \<le> i + length segments"
proof -
  assume "c \<in> set (captions i segments)"
  then have "caption_index c \<in> set (map caption_index (captions i segments))" by simp
  then obtain k segment where "(k, segment) \<in> set (enumerate i segments)" "caption_index c = k + 1"
    unfolding captions_indices by auto
  then show ?thesis by (auto simp: in_set_enumerate_eq)
qed

lemma captions_indices_all:
  "\<forall>segment \<in> set segments. \<not> skipped segment \<Longrightarrow>
   map caption_index (captions i segments) = [i + 1..<i + 1 + length segments]"
proof (induction segments arbitrary: i)
  case Nil
  then show ?case by simp
next
  case (Cons segment rest)
  then have "map caption_index (captions (i + 1) rest) = [i + 2..<i + 2 + length rest]"
    by simp
  moreover have "[i + 1..<i + 1 + length (segment # rest)] = (i + 1) # [i + 2..<i + 2 + length rest]"
    by (subst upt_conv_Cons) simp_all
  ultimately show ?case
    using Cons.prems by (simp only: captions_Cons) simp
qed

lemma captions_fields:
  "map (\<lambda>c. (caption_start c, caption_end c, caption_text c)) (captions i segments) =
     map (\<lambda>segment. (fst (the (extractTimestamps segment)),
                      fst (snd (the (extractTimestamps segment))),
                      TrimSpace (segment_Text segment)))
       (filter (\<lambda>segment. \<not> skipped segment) segments)"
  by (induction segments arbitrary: i) (simp_all add: captions_Cons del: captions.simps(2))

lemma captions_all_fields:
  "map (\<lambda>c. (caption_index c, caption_start c, caption_end c, caption_text c)) (captions i segments) =
     map (\<lambda>(k, segment). (k + 1, fst (the (extractTimestamps segment)),
                           fst (snd (the (extractTimestamps segment))),
                           TrimSpace (segment_Text segment)))
       (filter (\<lambda>(k, segment). \<not> skipped segment) (enumerate i segments))"
  by (induction segments arbitrary: i) (simp_all add: captions_Cons del: captions.simps(2))

lemma captions_append:
  "captions i (front @ rear) = captions i front @ captions (i + length front) rear"
  by (induction front arbitrary: i) (simp_all add: captions_Cons del: captions.simps(2))

subsection \<open>processFile under the background context\<close>

lemma render_None:
  "Transcription output = None \<Longrightarrow>
   render ctx jsonPath output p = (Inl (MissingTranscription jsonPath), p)"
  by (simp add: render_def)

lemma render_Some_Background:
  "Transcription output = Some segments \<Longrightarrow>
   render Background jsonPath output p =
     (Inr (concat (map captionBlock (captions 0 segments))), p + length segments)"
  by (simp add: render_def segmentsLoop_captions)

lemma render_error:
  "fst (render ctx jsonPath output p) = Inl err \<Longrightarrow>
   (Transcription output = None \<and> err = MissingTranscription jsonPath)
   \<or> (Transcription output \<noteq> None \<and> err = Canceled)"
  by (cases "Transcription output") (auto simp: render_def dest: segmentsLoop_error)

lemma processFile_Background:
  "processFile Background Unmarshal jsonPath w =
     (case files w jsonPath of
        None \<Rightarrow> (Some (ReadError jsonPath), tick w)
      | Some byteValue \<Rightarrow>
          (case Unmarshal byteValue of
             None \<Rightarrow> (Some (ParseError jsonPath), tick w)
           | Some output \<Rightarrow>
               (case Transcription output of
                  None \<Rightarrow> (Some (MissingTranscription jsonPath), tick w)
                | Some segments \<Rightarrow>
                    if srtPathOf jsonPath \<in> unwritable w
                    then (Some (WriteError (srtPathOf jsonPath)),
                          w\<lparr>polls := polls w + 1 + length segments\<rparr>)
                    else (None,
                          w\<lparr>polls := polls w + 1 + length segments,
                            files := (files w)(srtPathOf jsonPath \<mapsto>
                               bom @ concat (map captionBlock (captions 0 segments))),
                            console := console w @ [Generated (srtPathOf jsonPath)]\<rparr>))))"
proof -
  have b: "\<not> Background (polls w)" by (simp add: Background_def)
  show ?thesis
    unfolding processFile_def
    by (simp add: b tick_def Let_def render_None render_Some_Background
        split: option.split)
qed

lemma find_filter_same: "find P (filter P xs) = find P xs"
  by (induction xs) auto

subsection \<open>One worker\<close>

lemma started_append: "started (ms @ ms') = started ms @ started ms'"
  by (induction ms rule: started.induct) simp_all

lemma HasSuffix_srtPathOf: "HasSuffix (srtPathOf jsonPath) ''.srt''"
  by (simp add: srtPathOf_def HasSuffix_def)

text \<open>The errors \<open>processFile\<close> can return, under any context: a panic is not among them.\<close>

lemma processFile_error:
  assumes "fst (processFile ctx Unmarshal jsonPath w) = Some err"
  shows "err \<in> {Canceled, ReadError jsonPath, ParseError jsonPath,
                 MissingTranscription jsonPath, WriteError (srtPathOf jsonPath)}"
proof (cases "ctx (polls w)")
  case True
  with assms show ?thesis by (simp add: processFile_def)
next
  case nc: False
  show ?thesis
  proof (cases "files w jsonPath")
    case None
    with nc assms show ?thesis by (simp add: processFile_def tick_def)
  next
    case (Some byteValue)
    note rd = this
    show ?thesis
    proof (cases "Unmarshal byteValue")
      case None
      with nc rd assms show ?thesis by (simp add: processFile_def tick_def)
    next
      case (Some parsed)
      obtain r q where rq: "render ctx jsonPath parsed (polls (tick w)) = (r, q)"
        by (cases "render ctx jsonPath parsed (polls (tick w))")
      show ?thesis
      proof (cases r)
        case (Inl e)
        with rq have "fst (render ctx jsonPath parsed (polls (tick w))) = Inl e" by simp
        then have "e = MissingTranscription jsonPath \<or> e = Canceled"
          using render_error by blast
        moreover have "err = e"
          using assms nc rd Some rq Inl by (simp add: processFile_def tick_def)
        ultimately show ?thesis by auto
      next
        case (Inr srt)
        with assms nc rd Some rq show ?thesis
          by (simp add: processFile_def tick_def Let_def split: if_splits)
      qed
    qed
  qed
qed

lemma processJob_Some: "processJob ctx Unmarshal wid jsonPath w \<noteq> None"
proof -
  let ?w = "w\<lparr>console := console w @ [Started wid jsonPath]\<rparr>"
  obtain r w' where p: "processFile ctx Unmarshal jsonPath ?w = (r, w')"
    by (cases "processFile ctx Unmarshal jsonPath ?w")
  show ?thesis
  proof (cases r)
    case None
    with p show ?thesis by (simp add: processJob_def)
  next
    case (Some err)
    with p have "fst (processFile ctx Unmarshal jsonPath ?w) = Some err" by simp
    then have "err \<noteq> Panic"
      using processFile_error by fastforce
    with p Some show ?thesis
      by (cases err) (simp_all add: processJob_def)
  qed
qed

text \<open>
  The outcome of \<open>processFile\<close> is decided by the content of its input file and by whether
  its output file can be written.
\<close>

lemma processFile_outcome_local:
  assumes "files w jsonPath = files w' jsonPath"
    and "srtPathOf jsonPath \<in> unwritable w \<longleftrightarrow> srtPathOf jsonPath \<in> unwritable w'"
  shows "fst (processFile Background Unmarshal jsonPath w) =
         fst (processFile Background Unmarshal jsonPath w')"
  using assms by (simp add: processFile_Background split: option.split)

text \<open>What one pass of a worker does to the environment.\<close>

lemma processJob_Background:
  assumes "processJob Background Unmarshal wid jsonPath w = Some w'"
  shows "console w' =
           console w @ Started wid jsonPath #
             (case fst (processFile Background Unmarshal jsonPath w) of
                None \<Rightarrow> [Generated (srtPathOf jsonPath)]
              | Some err \<Rightarrow> [Failed wid jsonPath err])"
    and "unwritable w' = unwritable w"
    and "q \<noteq> srtPathOf jsonPath \<Longrightarrow> files w' q = files w q"
proof -
  let ?w = "w\<lparr>console := console w @ [Started wid jsonPath]\<rparr>"
  have o: "fst (processFile Background Unmarshal jsonPath ?w) =
           fst (processFile Background Unmarshal jsonPath w)"
    by (rule processFile_outcome_local) simp_all
  obtain r v where p: "processFile Background Unmarshal jsonPath ?w = (r, v)"
    by (cases "processFile Background Unmarshal jsonPath ?w")
  with o have r: "fst (processFile Background Unmarshal jsonPath w) = r" by simp
  have v: "unwritable v = unwritable w"
    "q \<noteq> srtPathOf jsonPath \<Longrightarrow> files v q = files w q"
    "console v = console w @ Started wid jsonPath #
        (case r of None \<Rightarrow> [Generated (srtPathOf jsonPath)] | Some err \<Rightarrow> [])"
    using p by (auto simp: processFile_Background tick_def split: option.splits if_splits)
  show "console w' =
           console w @ Started wid jsonPath #
             (case fst (processFile Background Unmarshal jsonPath w) of
                None \<Rightarrow> [Generated (srtPathOf jsonPath)]
              | Some err \<Rightarrow> [Failed wid jsonPath err])"
    and "unwritable w' = unwritable w"
    and "q \<noteq> srtPathOf jsonPath \<Longrightarrow> files w' q = files w q"
  proof (atomize (full), cases r)
    case None
    with p assms have "w' = v" by (simp add: processJob_def)
    with v r None show "(console w' =
           console w @ Started wid jsonPath #
             (case fst (processFile Background Unmarshal jsonPath w) of
                None \<Rightarrow> [Generated (srtPathOf jsonPath)]
              | Some err \<Rightarrow> [Failed wid jsonPath err]))
      \<and> unwritable w' = unwritable w
      \<and> (q \<noteq> srtPathOf jsonPath \<longrightarrow> files w' q = files w q)"
      by simp
  next
    case (Some err)
    with p assms have "w' = v\<lparr>console := console v @ [Failed wid jsonPath err]\<rparr>"
      by (cases err) (simp_all add: processJob_def)
    with v r Some show "(console w' =
           console w @ Started wid jsonPath #
             (case fst (processFile Background Unmarshal jsonPath w) of
                None \<Rightarrow> [Generated (srtPathOf jsonPath)]
              | Some err \<Rightarrow> [Failed wid jsonPath err]))
      \<and> unwritable w' = unwritable w
      \<and> (q \<noteq> srtPathOf jsonPath \<longrightarrow> files w' q = files w q)"
      by simp
  qed
qed

text \<open>A single worker starts every path it receives and returns, whatever fails.\<close>

lemma worker_Background:
  "\<exists>w'. worker Background Unmarshal wid jsonPaths w = Some w'
       \<and> started (console w') = started (console w) @ jsonPaths"
proof (induction jsonPaths arbitrary: w)
  case Nil
  show ?case by (simp add: tick_def)
next
  case (Cons jsonPath rest)
  obtain v where v: "processJob Background Unmarshal wid jsonPath (tick w) = Some v"
    using processJob_Some by fastforce
  have "started (console v) = started (console w) @ [jsonPath]"
    using processJob_Background(1) [OF v]
    by (simp add: started_append tick_def split: option.split)
  moreover obtain w' where "worker Background Unmarshal wid rest v = Some w'"
      "started (console w') = started (console v) @ rest"
    using Cons.IH by blast
  moreover have "\<not> Background (polls w)" by (simp add: Background_def)
  ultimately show ?case using v by simp
qed

subsection \<open>The pool of workers\<close>

text \<open>Sums over the workers when one of them moves.\<close>

lemma sum_list_map_update:
  fixes f :: "'a \<Rightarrow> 'b::comm_monoid_add"
  shows "k < length xs \<Longrightarrow>
    sum_list (map f (xs[k := y])) + f (xs ! k) = sum_list (map f xs) + f y"
proof (induction xs arbitrary: k)
  case Nil
  then show ?case by simp
next
  case (Cons x xs)
  show ?case
  proof (cases k)
    case 0
    then show ?thesis by (simp add: ac_simps)
  next
    case (Suc j)
    with Cons.prems have "j < length xs" by simp
    from Cons.IH [OF this] have
      "f x + (sum_list (map f (xs[j := y])) + f (xs ! j)) = f x + (sum_list (map f xs) + f y)"
      by simp
    with Suc show ?thesis by (simp add: ac_simps)
  qed
qed

lemma awaited_update:
  "k < length ws \<Longrightarrow>
   awaited (ws[k := b]) + mset (awaiting (ws ! k)) = awaited ws + mset (awaiting b)"
  unfolding awaited_def by (rule sum_list_map_update)

lemma pendingVerdicts_update:
  "k < length ws \<Longrightarrow>
   pendingVerdicts Unmarshal w (ws[k := b]) +
     mset (map (ownVerdict Unmarshal w) (inFlight (ws ! k))) =
   pendingVerdicts Unmarshal w ws + mset (map (ownVerdict Unmarshal w) (inFlight b))"
  unfolding pendingVerdicts_def by (rule sum_list_map_update)

lemma unwrittenPaths_update:
  "k < length ws \<Longrightarrow>
   unwrittenPaths (ws[k := b]) + mset (beforeWrite (ws ! k)) =
   unwrittenPaths ws + mset (beforeWrite b)"
  unfolding unwrittenPaths_def by (rule sum_list_map_update)

lemma weight_update:
  "k < length ws \<Longrightarrow>
   sum_list (map weight (ws[k := b])) + weight (ws ! k) = sum_list (map weight ws) + weight b"
  by (rule sum_list_map_update)

lemma verdicts_append: "verdicts (ms @ ms') = verdicts ms @ verdicts ms'"
  by (induction ms rule: verdicts.induct) simp_all

lemma update_all: "\<forall>a \<in> set xs. P a \<Longrightarrow> P y \<Longrightarrow> \<forall>a \<in> set (xs[k := y]). P a"
  using set_update_subset_insert [of xs k y] by auto

lemma all_nth: "\<forall>a \<in> set xs. P a \<Longrightarrow> k < length xs \<Longrightarrow> xs ! k = b \<Longrightarrow> P b"
  by auto

lemma update_mem: "x \<in> set (xs[k := y]) \<Longrightarrow> x \<noteq> y \<Longrightarrow> x \<in> set xs"
  using set_update_subset_insert [of xs k y] by auto

text \<open>The three pieces in a row are \<open>processFile\<close>.\<close>

lemma processFile_pieces:
  "processFile ctx Unmarshal jsonPath w =
     (case loadFile ctx Unmarshal jsonPath w of
        (Inl err, w1) \<Rightarrow> (Some err, w1)
      | (Inr dataToWrite, w1) \<Rightarrow>
          (case writeFile (srtPathOf jsonPath) dataToWrite w1 of
             (Some err, w2) \<Rightarrow> (Some err, w2)
           | (None, w2) \<Rightarrow> (None, printMsg (Generated (srtPathOf jsonPath)) w2)))"
  by (auto simp: processFile_def loadFile_def writeFile_def printMsg_def tick_def Let_def
      split: option.split sum.split prod.split)

lemma loadFile_Background:
  "loadFile Background Unmarshal jsonPath w =
     (case files w jsonPath of
        None \<Rightarrow> (Inl (ReadError jsonPath), tick w)
      | Some byteValue \<Rightarrow>
          (case Unmarshal byteValue of
             None \<Rightarrow> (Inl (ParseError jsonPath), tick w)
           | Some output \<Rightarrow>
               (case Transcription output of
                  None \<Rightarrow> (Inl (MissingTranscription jsonPath), tick w)
                | Some segments \<Rightarrow>
                    (Inr (bom @ concat (map captionBlock (captions 0 segments))),
                     w\<lparr>polls := polls w + 1 + length segments\<rparr>))))"
proof -
  have b: "\<not> Background (polls w)" by (simp add: Background_def)
  show ?thesis
    unfolding loadFile_def
    by (simp add: b tick_def Let_def render_None render_Some_Background
        split: option.split)
qed

lemma loadFile_frame:
  assumes "loadFile ctx Unmarshal jsonPath w = (r, w')"
  shows "files w' = files w" and "unwritable w' = unwritable w" and "console w' = console w"
  using assms
  by (auto simp: loadFile_def tick_def Let_def
      split: if_splits option.splits sum.splits prod.splits)

lemma writeFile_frame:
  assumes "writeFile srtPath dataToWrite w = (r, w')"
  shows "unwritable w' = unwritable w" and "console w' = console w"
    and "polls w' = polls w"
    and "q \<noteq> srtPath \<Longrightarrow> files w' q = files w q"
    and "r = None \<longleftrightarrow> srtPath \<notin> unwritable w"
    and "r = None \<Longrightarrow> files w' srtPath = Some dataToWrite"
    and "r = Some err \<Longrightarrow> err = WriteError srtPath \<and> w' = w"
  using assms by (auto simp: writeFile_def split: if_splits)

lemma poolStep_frame:
  assumes "poolStep ctx Unmarshal s s'"
  shows "length (workers s') = length (workers s)"
    and "unwritable (world s') = unwritable (world s)"
    and "\<not> HasSuffix q ''.srt'' \<Longrightarrow> files (world s') q = files (world s) q"
    and "(isClosed s \<longrightarrow> unsent s = []) \<Longrightarrow> (isClosed s' \<longrightarrow> unsent s' = [])"
    and "set (jobs s') \<union> set (unsent s') \<subseteq> set (jobs s) \<union> set (unsent s)"
proof -
  show "length (workers s') = length (workers s)"
    using assms by (cases rule: poolStep.cases) simp_all
  show "unwritable (world s') = unwritable (world s)"
    using assms
    by (cases rule: poolStep.cases)
       (simp_all add: tick_def printMsg_def loadFile_frame writeFile_frame)
  show "files (world s') q = files (world s) q" if "\<not> HasSuffix q ''.srt''"
    using assms
  proof (cases rule: poolStep.cases)
    case (store k jsonPath dataToWrite r w')
    from that have "q \<noteq> srtPathOf jsonPath"
      using HasSuffix_srtPathOf by metis
    with store show ?thesis by (simp add: writeFile_frame)
  qed (simp_all add: tick_def printMsg_def loadFile_frame)
  show "isClosed s' \<longrightarrow> unsent s' = []" if "isClosed s \<longrightarrow> unsent s = []"
    using assms that by (cases rule: poolStep.cases) simp_all
  show "set (jobs s') \<union> set (unsent s') \<subseteq> set (jobs s) \<union> set (unsent s)"
    using assms by (cases rule: poolStep.cases) auto
qed

text \<open>No worker returns before the channel is closed and empty.\<close>

lemma poolStep_returned:
  assumes "poolStep Background Unmarshal s s'"
    and "isClosed s \<longrightarrow> unsent s = []"
    and "Returned \<in> set (workers s) \<longrightarrow> isClosed s \<and> jobs s = []"
  shows "Returned \<in> set (workers s') \<longrightarrow> isClosed s' \<and> jobs s' = []"
  using assms(1)
proof (cases rule: poolStep.cases)
  case (send jsonPath rest)
  with assms(2,3) show ?thesis by auto
next
  case close
  with assms(3) show ?thesis by simp
next
  case (cancelled k)
  then show ?thesis by (simp add: Background_def)
next
  case (receive k jsonPath rest)
  with assms(3) show ?thesis by (auto dest: update_mem)
next
  case (closed k)
  then show ?thesis by simp
next
  case (announce k jsonPath)
  with assms(3) show ?thesis by (auto dest: update_mem)
next
  case (load k jsonPath r w')
  with assms(3) show ?thesis by (cases r) (auto dest: update_mem)
next
  case (store k jsonPath dataToWrite r w')
  with assms(3) show ?thesis by (cases r) (auto dest: update_mem)
next
  case (report k jsonPath)
  with assms(3) show ?thesis by (auto dest: update_mem)
next
  case (logFailure k jsonPath err)
  with assms(3) show ?thesis by (auto dest: update_mem)
next
  case (panic k jsonPath)
  with assms(3) show ?thesis by simp
qed

text \<open>
  Under the background context the outcome of a file is decided by its content and by
  whether its subtitle file can be written.
\<close>

lemma loadFile_local:
  "files w jsonPath = files w' jsonPath \<Longrightarrow>
   fst (loadFile Background Unmarshal jsonPath w) =
   fst (loadFile Background Unmarshal jsonPath w')"
  by (simp add: loadFile_Background split: option.split)

lemma processFile_after_load:
  "fst (loadFile ctx Unmarshal jsonPath w) = Inl err \<Longrightarrow>
     fst (processFile ctx Unmarshal jsonPath w) = Some err"
  "fst (loadFile ctx Unmarshal jsonPath w) = Inr dataToWrite \<Longrightarrow>
     fst (processFile ctx Unmarshal jsonPath w) =
       (if srtPathOf jsonPath \<in> unwritable w then Some (WriteError (srtPathOf jsonPath))
        else None)"
proof -
  obtain r w1 where l: "loadFile ctx Unmarshal jsonPath w = (r, w1)"
    by (cases "loadFile ctx Unmarshal jsonPath w")
  note u = loadFile_frame(2) [OF l]
  show "fst (loadFile ctx Unmarshal jsonPath w) = Inl err \<Longrightarrow>
     fst (processFile ctx Unmarshal jsonPath w) = Some err"
    using l by (simp add: processFile_pieces)
  show "fst (loadFile ctx Unmarshal jsonPath w) = Inr dataToWrite \<Longrightarrow>
     fst (processFile ctx Unmarshal jsonPath w) =
       (if srtPathOf jsonPath \<in> unwritable w then Some (WriteError (srtPathOf jsonPath))
        else None)"
    using l u by (simp add: processFile_pieces writeFile_def)
qed

lemma poolStep_agrees:
  assumes step: "poolStep Background Unmarshal s s'"
    and paths: "set (jobs s) \<subseteq> set jsonPaths"
    and nosrt: "\<forall>p \<in> set jsonPaths. \<not> HasSuffix p ''.srt''"
    and unw: "unwritable (world s) = unwritable w0"
    and fls: "\<forall>q. \<not> HasSuffix q ''.srt'' \<longrightarrow> files (world s) q = files w0 q"
    and agr: "\<forall>a \<in> set (workers s). agrees Unmarshal w0 jsonPaths a"
  shows "(\<forall>a \<in> set (workers s'). agrees Unmarshal w0 jsonPaths a) \<and> \<not> crashed s'"
  using step
proof (cases rule: poolStep.cases)
  case (send jsonPath rest)
  with agr show ?thesis by simp
next
  case close
  with agr show ?thesis by simp
next
  case (cancelled k)
  then show ?thesis by (simp add: Background_def)
next
  case (receive k jsonPath rest)
  with paths have "agrees Unmarshal w0 jsonPaths (Received jsonPath)" by simp
  from update_all [OF agr this] receive(1,2) show ?thesis by simp
next
  case (closed k)
  have "agrees Unmarshal w0 jsonPaths Returned" by simp
  from update_all [OF agr this] closed(1,2) show ?thesis by simp
next
  case (announce k jsonPath)
  have "agrees Unmarshal w0 jsonPaths (Received jsonPath)"
    using agr announce(3) announce(4) by (rule all_nth)
  then have "agrees Unmarshal w0 jsonPaths (Entered jsonPath)" by simp
  from update_all [OF agr this] announce(1,2) show ?thesis by simp
next
  case (load k jsonPath r w')
  have "agrees Unmarshal w0 jsonPaths (Entered jsonPath)"
    using agr load(3) load(4) by (rule all_nth)
  then have p: "jsonPath \<in> set jsonPaths" by simp
  with nosrt fls have "files (world s) jsonPath = files w0 jsonPath" by simp
  from loadFile_local [OF this, of Unmarshal] load(5)
  have r: "fst (loadFile Background Unmarshal jsonPath w0) = r" by simp
  have "agrees Unmarshal w0 jsonPaths
     (case r of Inl err \<Rightarrow> Failing jsonPath err | Inr dataToWrite \<Rightarrow> Writing jsonPath dataToWrite)"
  proof (cases r)
    case (Inl err)
    with r p show ?thesis by (simp add: processFile_after_load(1))
  next
    case (Inr dataToWrite)
    with r p show ?thesis by simp
  qed
  from update_all [OF agr this] load(1,2) show ?thesis by simp
next
  case (store k jsonPath dataToWrite r w')
  have "agrees Unmarshal w0 jsonPaths (Writing jsonPath dataToWrite)"
    using agr store(3) store(4) by (rule all_nth)
  then have p: "jsonPath \<in> set jsonPaths"
    and l: "fst (loadFile Background Unmarshal jsonPath w0) = Inr dataToWrite"
    by simp_all
  note w = writeFile_frame [OF store(5)]
  have "agrees Unmarshal w0 jsonPaths
     (case r of None \<Rightarrow> Written jsonPath | Some err \<Rightarrow> Failing jsonPath err)"
  proof (cases r)
    case None
    with w(5) unw have "srtPathOf jsonPath \<notin> unwritable w0" by simp
    with None p l show ?thesis by (simp add: processFile_after_load(2))
  next
    case (Some err)
    with w(5) unw have "srtPathOf jsonPath \<in> unwritable w0" by simp
    moreover from Some w(7) have "err = WriteError (srtPathOf jsonPath)" by simp
    ultimately show ?thesis using Some p l by (simp add: processFile_after_load(2))
  qed
  from update_all [OF agr this] store(1,2) show ?thesis by simp
next
  case (report k jsonPath)
  have "agrees Unmarshal w0 jsonPaths Idle" by simp
  from update_all [OF agr this] report(1,2) show ?thesis by simp
next
  case (logFailure k jsonPath err)
  have "agrees Unmarshal w0 jsonPaths Idle" by simp
  from update_all [OF agr this] logFailure(1,2) show ?thesis by simp
next
  case (panic k jsonPath)
  have "agrees Unmarshal w0 jsonPaths (Failing jsonPath Panic)"
    using agr panic(3) panic(4) by (rule all_nth)
  then have "fst (processFile Background Unmarshal jsonPath w0) = Some Panic" by simp
  from processFile_error [OF this] show ?thesis by simp
qed

text \<open>
  The account of the messages: every path taken from the channel has been announced or
  is about to be, and has received its own verdict or is still in work.
\<close>

lemma poolStep_accounts:
  assumes step: "poolStep Background Unmarshal s s'"
    and agr: "\<forall>a \<in> set (workers s). agrees Unmarshal w0 jsonPaths a"
    and d: "jsonPaths = done @ jobs s @ unsent s"
    and st: "mset (started (console (world s))) + awaited (workers s) =
             mset (started (console w0)) + mset done"
    and vd: "mset (verdicts (console (world s))) + pendingVerdicts Unmarshal w0 (workers s) =
             mset (verdicts (console w0)) + mset (map (ownVerdict Unmarshal w0) done)"
  shows "\<exists>done'. jsonPaths = done' @ jobs s' @ unsent s'
    \<and> mset (started (console (world s'))) + awaited (workers s') =
        mset (started (console w0)) + mset done'
    \<and> mset (verdicts (console (world s'))) + pendingVerdicts Unmarshal w0 (workers s') =
        mset (verdicts (console w0)) + mset (map (ownVerdict Unmarshal w0) done')"
  using step
proof (cases rule: poolStep.cases)
  case (send jsonPath rest)
  with d st vd show ?thesis by (intro exI [of _ "done"]) simp
next
  case close
  with d st vd show ?thesis by (intro exI [of _ "done"]) simp
next
  case (cancelled k)
  then show ?thesis by (simp add: Background_def)
next
  case (receive k jsonPath rest)
  from awaited_update [OF receive(3), of "Received jsonPath"] receive(4)
  have a: "awaited ((workers s)[k := Received jsonPath]) = awaited (workers s) + {#jsonPath#}"
    by simp
  from pendingVerdicts_update [OF receive(3), of Unmarshal w0 "Received jsonPath"] receive(4)
  have b: "pendingVerdicts Unmarshal w0 ((workers s)[k := Received jsonPath]) =
      pendingVerdicts Unmarshal w0 (workers s) + {#ownVerdict Unmarshal w0 jsonPath#}"
    by simp
  have "jsonPaths = (done @ [jsonPath]) @ jobs s' @ unsent s'"
    using d receive by simp
  moreover have "mset (started (console (world s'))) + awaited (workers s') =
        mset (started (console w0)) + mset (done @ [jsonPath])"
    using st a receive(1) by (simp add: tick_def)
  moreover have "mset (verdicts (console (world s'))) + pendingVerdicts Unmarshal w0 (workers s') =
        mset (verdicts (console w0)) + mset (map (ownVerdict Unmarshal w0) (done @ [jsonPath]))"
    using vd b receive(1) by (simp add: tick_def)
  ultimately show ?thesis by blast
next
  case (closed k)
  from awaited_update [OF closed(3), of Returned] closed(4)
  have a: "awaited ((workers s)[k := Returned]) = awaited (workers s)"
    by simp
  from pendingVerdicts_update [OF closed(3), of Unmarshal w0 Returned] closed(4)
  have b: "pendingVerdicts Unmarshal w0 ((workers s)[k := Returned]) =
      pendingVerdicts Unmarshal w0 (workers s)"
    by simp
  from d st vd a b closed(1) show ?thesis
    by (intro exI [of _ "done"]) (simp add: tick_def)
next
  case (announce k jsonPath)
  from awaited_update [OF announce(3), of "Entered jsonPath"] announce(4)
  have a: "awaited ((workers s)[k := Entered jsonPath]) + {#jsonPath#} = awaited (workers s)"
    by simp
  from pendingVerdicts_update [OF announce(3), of Unmarshal w0 "Entered jsonPath"] announce(4)
  have b: "pendingVerdicts Unmarshal w0 ((workers s)[k := Entered jsonPath]) =
      pendingVerdicts Unmarshal w0 (workers s)"
    by simp
  have "mset (started (console (world s'))) + awaited (workers s') =
        mset (started (console (world s))) + awaited (workers s)"
    using announce(1) a [symmetric] by (simp add: printMsg_def started_append)
  moreover have "mset (verdicts (console (world s'))) + pendingVerdicts Unmarshal w0 (workers s') =
        mset (verdicts (console (world s))) + pendingVerdicts Unmarshal w0 (workers s)"
    using announce(1) b by (simp add: printMsg_def verdicts_append)
  moreover have "jsonPaths = done @ jobs s' @ unsent s'"
    using d announce(1) by simp
  ultimately show ?thesis using st vd by (intro exI [of _ "done"]) simp
next
  case (load k jsonPath r w')
  let ?b = "case r of Inl err \<Rightarrow> Failing jsonPath err
            | Inr dataToWrite \<Rightarrow> Writing jsonPath dataToWrite"
  have i: "awaiting ?b = []" "inFlight ?b = [jsonPath]"
    by (cases r; simp)+
  from awaited_update [OF load(3), of ?b] load(4) i
  have a: "awaited ((workers s)[k := ?b]) = awaited (workers s)"
    by simp
  from pendingVerdicts_update [OF load(3), of Unmarshal w0 ?b] load(4) i
  have b: "pendingVerdicts Unmarshal w0 ((workers s)[k := ?b]) =
      pendingVerdicts Unmarshal w0 (workers s)"
    by simp
  note f = loadFile_frame [OF load(5)]
  from d st vd a b load(1) f show ?thesis
    by (intro exI [of _ "done"]) simp
next
  case (store k jsonPath dataToWrite r w')
  let ?b = "case r of None \<Rightarrow> Written jsonPath | Some err \<Rightarrow> Failing jsonPath err"
  have i: "awaiting ?b = []" "inFlight ?b = [jsonPath]"
    by (cases r; simp)+
  from awaited_update [OF store(3), of ?b] store(4) i
  have a: "awaited ((workers s)[k := ?b]) = awaited (workers s)"
    by simp
  from pendingVerdicts_update [OF store(3), of Unmarshal w0 ?b] store(4) i
  have b: "pendingVerdicts Unmarshal w0 ((workers s)[k := ?b]) =
      pendingVerdicts Unmarshal w0 (workers s)"
    by simp
  note f = writeFile_frame(2) [OF store(5)]
  from d st vd a b store(1) f show ?thesis
    by (intro exI [of _ "done"]) simp
next
  case (report k jsonPath)
  have "agrees Unmarshal w0 jsonPaths (Written jsonPath)"
    using agr report(3) report(4) by (rule all_nth)
  then have own: "ownVerdict Unmarshal w0 jsonPath = Success (srtPathOf jsonPath)"
    by (simp add: ownVerdict_def)
  from awaited_update [OF report(3), of Idle] report(4)
  have a: "awaited ((workers s)[k := Idle]) = awaited (workers s)"
    by simp
  from pendingVerdicts_update [OF report(3), of Unmarshal w0 Idle] report(4) own
  have b: "pendingVerdicts Unmarshal w0 ((workers s)[k := Idle]) + {#Success (srtPathOf jsonPath)#} =
      pendingVerdicts Unmarshal w0 (workers s)"
    by simp
  have "mset (started (console (world s'))) + awaited (workers s') =
        mset (started (console (world s))) + awaited (workers s)"
    using report(1) a by (simp add: printMsg_def started_append)
  moreover have "mset (verdicts (console (world s'))) + pendingVerdicts Unmarshal w0 (workers s') =
        mset (verdicts (console (world s))) + pendingVerdicts Unmarshal w0 (workers s)"
    using report(1) b [symmetric] by (simp add: printMsg_def verdicts_append)
  moreover have "jsonPaths = done @ jobs s' @ unsent s'"
    using d report(1) by simp
  ultimately show ?thesis using st vd by (intro exI [of _ "done"]) simp
next
  case (logFailure k jsonPath err)
  have "agrees Unmarshal w0 jsonPaths (Failing jsonPath err)"
    using agr logFailure(3) logFailure(4) by (rule all_nth)
  then have own: "ownVerdict Unmarshal w0 jsonPath = Failure jsonPath err"
    by (simp add: ownVerdict_def)
  from awaited_update [OF logFailure(3), of Idle] logFailure(4)
  have a: "awaited ((workers s)[k := Idle]) = awaited (workers s)"
    by simp
  from pendingVerdicts_update [OF logFailure(3), of Unmarshal w0 Idle] logFailure(4) own
  have b: "pendingVerdicts Unmarshal w0 ((workers s)[k := Idle]) + {#Failure jsonPath err#} =
      pendingVerdicts Unmarshal w0 (workers s)"
    by simp
  have "mset (started (console (world s'))) + awaited (workers s') =
        mset (started (console (world s))) + awaited (workers s)"
    using logFailure(1) a by (simp add: printMsg_def started_append)
  moreover have "mset (verdicts (console (world s'))) + pendingVerdicts Unmarshal w0 (workers s') =
        mset (verdicts (console (world s))) + pendingVerdicts Unmarshal w0 (workers s)"
    using logFailure(1) b [symmetric] by (simp add: printMsg_def verdicts_append)
  moreover have "jsonPaths = done @ jobs s' @ unsent s'"
    using d logFailure(1) by simp
  ultimately show ?thesis using st vd by (intro exI [of _ "done"]) simp
next
  case (panic k jsonPath)
  with d st vd show ?thesis by (intro exI [of _ "done"]) simp
qed

text \<open>
  What holds in every state that a run under the background context reaches from the
  start.
\<close>

lemma pool_invariant:
  assumes run: "poolRun Background Unmarshal (poolStart numWorkers jsonPaths w0) s"
    and nosrt: "\<forall>p \<in> set jsonPaths. \<not> HasSuffix p ''.srt''"
  shows "\<not> crashed s \<and> length (workers s) = numWorkers
    \<and> (isClosed s \<longrightarrow> unsent s = [])
    \<and> (Returned \<in> set (workers s) \<longrightarrow> isClosed s \<and> jobs s = [])
    \<and> unwritable (world s) = unwritable w0
    \<and> (\<forall>q. \<not> HasSuffix q ''.srt'' \<longrightarrow> files (world s) q = files w0 q)
    \<and> (\<forall>a \<in> set (workers s). agrees Unmarshal w0 jsonPaths a)
    \<and> (\<exists>done. jsonPaths = done @ jobs s @ unsent s
          \<and> mset (started (console (world s))) + awaited (workers s) =
              mset (started (console w0)) + mset done
          \<and> mset (verdicts (console (world s))) + pendingVerdicts Unmarshal w0 (workers s) =
              mset (verdicts (console w0)) + mset (map (ownVerdict Unmarshal w0) done))"
  using run
proof (induction "poolStart numWorkers jsonPaths w0" s rule: poolRun.induct)
  case stay
  have "awaited (replicate numWorkers Idle) = {#}"
    by (induction numWorkers) (simp_all add: awaited_def)
  moreover have "pendingVerdicts Unmarshal w0 (replicate numWorkers Idle) = {#}"
    by (induction numWorkers) (simp_all add: pendingVerdicts_def)
  ultimately show ?case by (simp add: poolStart_def)
next
  case (move s' s'')
  from move.hyps(2) obtain "done" where
    inv: "\<not> crashed s'" "length (workers s') = numWorkers"
      "isClosed s' \<longrightarrow> unsent s' = []"
      "Returned \<in> set (workers s') \<longrightarrow> isClosed s' \<and> jobs s' = []"
      "unwritable (world s') = unwritable w0"
      "\<forall>q. \<not> HasSuffix q ''.srt'' \<longrightarrow> files (world s') q = files w0 q"
      "\<forall>a \<in> set (workers s'). agrees Unmarshal w0 jsonPaths a"
    and d: "jsonPaths = done @ jobs s' @ unsent s'"
      "mset (started (console (world s'))) + awaited (workers s') =
         mset (started (console w0)) + mset done"
      "mset (verdicts (console (world s'))) + pendingVerdicts Unmarshal w0 (workers s') =
         mset (verdicts (console w0)) + mset (map (ownVerdict Unmarshal w0) done)"
    by blast
  note step = move.hyps(3)
  note frame = poolStep_frame [OF step]
  have j: "set (jobs s') \<subseteq> set jsonPaths"
    using d(1) by auto
  note a = poolStep_agrees [OF step j nosrt inv(5) inv(6) inv(7)]
  have "length (workers s'') = numWorkers"
    using frame(1) inv(2) by simp
  moreover have "isClosed s'' \<longrightarrow> unsent s'' = []"
    using inv(3) by (rule frame(4))
  moreover have "Returned \<in> set (workers s'') \<longrightarrow> isClosed s'' \<and> jobs s'' = []"
    using step inv(3) inv(4) by (rule poolStep_returned)
  moreover have "unwritable (world s'') = unwritable w0"
    using frame(2) inv(5) by simp
  moreover have "\<forall>q. \<not> HasSuffix q ''.srt'' \<longrightarrow> files (world s'') q = files w0 q"
    using frame(3) inv(6) by simp
  moreover note a poolStep_accounts [OF step inv(7) d]
  ultimately show ?case by blast
qed

text \<open>Unless every worker has returned or the program has ended, a step is possible.\<close>

lemma poolStep_progress:
  assumes "\<not> crashed s" and "\<not> finished s"
  shows "\<exists>s'. poolStep Background Unmarshal s s'"
proof -
  have nb: "\<not> Background (polls (world s))"
    by (simp add: Background_def)
  from assms obtain a where "a \<in> set (workers s)" "a \<noteq> Returned"
    by (auto simp: finished_def)
  then obtain k where k: "k < length (workers s)" "workers s ! k = a"
    by (auto simp: in_set_conv_nth)
  show ?thesis
  proof (cases a)
    case Idle
    show ?thesis
    proof (cases "unsent s")
      case (Cons jsonPath rest)
      with assms(1) show ?thesis by (blast intro: poolStep.send)
    next
      case Nil
      note u = this
      show ?thesis
      proof (cases "jobs s")
        case (Cons jsonPath rest)
        with assms(1) k Idle nb show ?thesis by (blast intro: poolStep.receive)
      next
        case Nil
        show ?thesis
        proof (cases "isClosed s")
          case True
          with assms(1) k Idle nb Nil show ?thesis by (blast intro: poolStep.closed)
        next
          case False
          with assms(1) u show ?thesis by (blast intro: poolStep.close)
        qed
      qed
    qed
  next
    case (Received jsonPath)
    with assms(1) k show ?thesis by (blast intro: poolStep.announce)
  next
    case (Entered jsonPath)
    obtain r w' where "loadFile Background Unmarshal jsonPath (world s) = (r, w')"
      by (cases "loadFile Background Unmarshal jsonPath (world s)")
    with assms(1) k Entered show ?thesis by (blast intro: poolStep.load)
  next
    case (Writing jsonPath dataToWrite)
    obtain r w' where "writeFile (srtPathOf jsonPath) dataToWrite (world s) = (r, w')"
      by (cases "writeFile (srtPathOf jsonPath) dataToWrite (world s)")
    with assms(1) k Writing show ?thesis by (blast intro: poolStep.store)
  next
    case (Written jsonPath)
    with assms(1) k show ?thesis by (blast intro: poolStep.report)
  next
    case (Failing jsonPath err)
    show ?thesis
    proof (cases "err = Panic")
      case True
      with assms(1) k Failing show ?thesis by (blast intro: poolStep.panic)
    next
      case False
      with assms(1) k Failing show ?thesis by (blast intro: poolStep.logFailure)
    qed
  next
    case Returned
    with \<open>a \<noteq> Returned\<close> show ?thesis by simp
  qed
qed

text \<open>Every step brings the end nearer, under any context.\<close>

lemma poolStep_remaining:
  assumes "poolStep ctx Unmarshal s s'"
  shows "remaining s' < remaining s"
  using assms
proof (cases rule: poolStep.cases)
  case (send jsonPath rest)
  then show ?thesis by (simp add: remaining_def)
next
  case close
  then show ?thesis by (simp add: remaining_def)
next
  case (cancelled k)
  from weight_update [OF cancelled(3), of Returned] cancelled show ?thesis
    by (simp add: remaining_def)
next
  case (receive k jsonPath rest)
  from weight_update [OF receive(3), of "Received jsonPath"] receive show ?thesis
    by (simp add: remaining_def)
next
  case (closed k)
  from weight_update [OF closed(3), of Returned] closed show ?thesis
    by (simp add: remaining_def)
next
  case (announce k jsonPath)
  from weight_update [OF announce(3), of "Entered jsonPath"] announce show ?thesis
    by (simp add: remaining_def)
next
  case (load k jsonPath r w')
  let ?b = "case r of Inl err \<Rightarrow> Failing jsonPath err
            | Inr dataToWrite \<Rightarrow> Writing jsonPath dataToWrite"
  have "weight ?b < 5" by (cases r) simp_all
  with weight_update [OF load(3), of ?b] load show ?thesis
    by (simp add: remaining_def)
next
  case (store k jsonPath dataToWrite r w')
  let ?b = "case r of None \<Rightarrow> Written jsonPath | Some err \<Rightarrow> Failing jsonPath err"
  have "weight ?b < 4" by (cases r) simp_all
  with weight_update [OF store(3), of ?b] store show ?thesis
    by (simp add: remaining_def)
next
  case (report k jsonPath)
  from weight_update [OF report(3), of Idle] report show ?thesis
    by (simp add: remaining_def)
next
  case (logFailure k jsonPath err)
  from weight_update [OF logFailure(3), of Idle] logFailure show ?thesis
    by (simp add: remaining_def)
next
  case (panic k jsonPath)
  then show ?thesis by (simp add: remaining_def)
qed

text \<open>What \<open>processFile\<close> alone writes for a file that it processes without an error.\<close>

lemma processFile_written:
  assumes "fst (loadFile Background Unmarshal jsonPath w) = Inr dataToWrite"
    and "srtPathOf jsonPath \<notin> unwritable w"
  shows "files (snd (processFile Background Unmarshal jsonPath w)) (srtPathOf jsonPath) =
         Some dataToWrite"
proof -
  obtain w1 where l: "loadFile Background Unmarshal jsonPath w = (Inr dataToWrite, w1)"
    using assms(1) by (cases "loadFile Background Unmarshal jsonPath w") simp
  from loadFile_frame(2) [OF l] assms(2) have "srtPathOf jsonPath \<notin> unwritable w1"
    by simp
  with l show ?thesis
    by (simp add: processFile_pieces writeFile_def printMsg_def)
qed

lemma processFile_None_load:
  assumes "fst (processFile Background Unmarshal jsonPath w) = None"
  shows "\<exists>dataToWrite. fst (loadFile Background Unmarshal jsonPath w) = Inr dataToWrite"
    and "srtPathOf jsonPath \<notin> unwritable w"
proof -
  obtain r w1 where l: "loadFile Background Unmarshal jsonPath w = (r, w1)"
    by (cases "loadFile Background Unmarshal jsonPath w")
  show "\<exists>dataToWrite. fst (loadFile Background Unmarshal jsonPath w) = Inr dataToWrite"
  proof (cases r)
    case (Inl err)
    with l assms show ?thesis by (simp add: processFile_pieces)
  next
    case (Inr dataToWrite)
    with l show ?thesis by simp
  qed
  then obtain dataToWrite where
    "fst (loadFile Background Unmarshal jsonPath w) = Inr dataToWrite" ..
  from processFile_after_load(2) [OF this] assms
  show "srtPathOf jsonPath \<notin> unwritable w"
    by (simp split: if_splits)
qed

text \<open>
  If no two paths have the same subtitle file, then the subtitle file of a path that is
  processed without an error holds what \<open>processFile\<close> alone writes, as soon as no worker
  has the path before its write and the path is not waiting any more.
\<close>

lemma pool_files:
  assumes run: "poolRun Background Unmarshal (poolStart numWorkers jsonPaths w0) s"
    and nosrt: "\<forall>p \<in> set jsonPaths. \<not> HasSuffix p ''.srt''"
    and inj: "inj_on srtPathOf (set jsonPaths)"
  shows "\<forall>p \<in> set jsonPaths.
           fst (processFile Background Unmarshal p w0) = None \<longrightarrow>
           files (world s) (srtPathOf p) =
             files (snd (processFile Background Unmarshal p w0)) (srtPathOf p)
           \<or> p \<in># unwrittenPaths (workers s) \<or> p \<in> set (jobs s) \<or> p \<in> set (unsent s)"
  using run
proof (induction "poolStart numWorkers jsonPaths w0" s rule: poolRun.induct)
  case stay
  show ?case by (simp add: poolStart_def)
next
  case (move s' s'')
  from pool_invariant [OF move.hyps(1) nosrt] obtain "done" where
    unw: "unwritable (world s') = unwritable w0"
    and fls: "\<forall>q. \<not> HasSuffix q ''.srt'' \<longrightarrow> files (world s') q = files w0 q"
    and agr: "\<forall>a \<in> set (workers s'). agrees Unmarshal w0 jsonPaths a"
    and d: "jsonPaths = done @ jobs s' @ unsent s'"
    by blast
  have j: "set (jobs s') \<subseteq> set jsonPaths"
    using d by auto
  note step = move.hyps(3)
  show ?case
  proof (intro ballI impI)
    fix p
    assume p: "p \<in> set jsonPaths"
      and own: "fst (processFile Background Unmarshal p w0) = None"
    let ?target = "files (snd (processFile Background Unmarshal p w0)) (srtPathOf p)"
    from move.hyps(2) p own
    have ih: "files (world s') (srtPathOf p) = ?target
           \<or> p \<in># unwrittenPaths (workers s') \<or> p \<in> set (jobs s') \<or> p \<in> set (unsent s')"
      by blast
    from step show "files (world s'') (srtPathOf p) = ?target
           \<or> p \<in># unwrittenPaths (workers s'') \<or> p \<in> set (jobs s'') \<or> p \<in> set (unsent s'')"
    proof (cases rule: poolStep.cases)
      case (send jsonPath rest)
      with ih show ?thesis by auto
    next
      case close
      with ih show ?thesis by simp
    next
      case (cancelled k)
      then show ?thesis by (simp add: Background_def)
    next
      case (receive k jsonPath rest)
      from unwrittenPaths_update [OF receive(3), of "Received jsonPath"] receive(4)
      have "unwrittenPaths ((workers s')[k := Received jsonPath]) =
            unwrittenPaths (workers s') + {#jsonPath#}"
        by simp
      with ih receive(1,6) show ?thesis by (auto simp: tick_def)
    next
      case (closed k)
      from unwrittenPaths_update [OF closed(3), of Returned] closed(4)
      have "unwrittenPaths ((workers s')[k := Returned]) = unwrittenPaths (workers s')"
        by simp
      with ih closed(1) show ?thesis by (auto simp: tick_def)
    next
      case (announce k jsonPath)
      from unwrittenPaths_update [OF announce(3), of "Entered jsonPath"] announce(4)
      have "unwrittenPaths ((workers s')[k := Entered jsonPath]) = unwrittenPaths (workers s')"
        by simp
      with ih announce(1) show ?thesis by (auto simp: printMsg_def)
    next
      case (load k jsonPath r w')
      let ?b = "case r of Inl err \<Rightarrow> Failing jsonPath err
                | Inr dataToWrite \<Rightarrow> Writing jsonPath dataToWrite"
      note f = loadFile_frame(1) [OF load(5)]
      show ?thesis
      proof (cases r)
        case (Inr dataToWrite)
        with unwrittenPaths_update [OF load(3), of ?b] load(4)
        have "unwrittenPaths ((workers s')[k := ?b]) = unwrittenPaths (workers s')"
          by simp
        with ih load(1) f show ?thesis by auto
      next
        case (Inl err)
        with unwrittenPaths_update [OF load(3), of ?b] load(4)
        have u: "unwrittenPaths ((workers s')[k := ?b]) + {#jsonPath#} =
                 unwrittenPaths (workers s')"
          by simp
        note a = poolStep_agrees [OF step j nosrt unw fls agr, THEN conjunct1]
        have n: "workers s'' ! k = Failing jsonPath err"
          using load(1,3) Inl by simp
        have l: "k < length (workers s'')"
          using load(1,3) by simp
        have "agrees Unmarshal w0 jsonPaths (Failing jsonPath err)"
          using a l n by (rule all_nth)
        with own have "p \<noteq> jsonPath" by auto
        with ih load(1) f u [symmetric] show ?thesis by auto
      qed
    next
      case (store k jsonPath dataToWrite r w')
      let ?b = "case r of None \<Rightarrow> Written jsonPath | Some err \<Rightarrow> Failing jsonPath err"
      note w = writeFile_frame [OF store(5)]
      have b: "beforeWrite ?b = []" by (cases r) simp_all
      from unwrittenPaths_update [OF store(3), of ?b] store(4) b
      have u: "unwrittenPaths ((workers s')[k := ?b]) + {#jsonPath#} =
               unwrittenPaths (workers s')"
        by simp
      have a: "agrees Unmarshal w0 jsonPaths (Writing jsonPath dataToWrite)"
        using agr store(3) store(4) by (rule all_nth)
      show ?thesis
      proof (cases "p = jsonPath")
        case True
        from processFile_None_load(2) [OF own] unw True
        have "srtPathOf jsonPath \<notin> unwritable (world s')" by simp
        with w(5) have "r = None" by simp
        from w(6) [OF this] have "files w' (srtPathOf p) = Some dataToWrite"
          using True by simp
        moreover have "?target = Some dataToWrite"
          using a True processFile_None_load(2) [OF own]
          by (simp add: processFile_written)
        ultimately show ?thesis using store(1) by simp
      next
        case False
        from a have "jsonPath \<in> set jsonPaths" by simp
        with False p inj have "srtPathOf p \<noteq> srtPathOf jsonPath"
          by (auto dest: inj_onD)
        from w(4) [OF this] have "files w' (srtPathOf p) = files (world s') (srtPathOf p)" .
        with ih store(1) u [symmetric] False show ?thesis by auto
      qed
    next
      case (report k jsonPath)
      from unwrittenPaths_update [OF report(3), of Idle] report(4)
      have "unwrittenPaths ((workers s')[k := Idle]) = unwrittenPaths (workers s')"
        by simp
      with ih report(1) show ?thesis by (auto simp: printMsg_def)
    next
      case (logFailure k jsonPath err)
      from unwrittenPaths_update [OF logFailure(3), of Idle] logFailure(4)
      have "unwrittenPaths ((workers s')[k := Idle]) = unwrittenPaths (workers s')"
        by simp
      with ih logFailure(1) show ?thesis by (auto simp: printMsg_def)
    next
      case (panic k jsonPath)
      with ih show ?thesis by simp
    qed
  qed
qed

lemma unwrittenPaths_Returned:
  "\<forall>a \<in> set ws. a = Returned \<Longrightarrow> unwrittenPaths ws = {#}"
  by (induction ws) (simp_all add: unwrittenPaths_def)

lemma awaited_Returned:
  "\<forall>a \<in> set ws. a = Returned \<Longrightarrow> awaited ws = {#}"
  by (induction ws) (simp_all add: awaited_def)

lemma pendingVerdicts_Returned:
  "\<forall>a \<in> set ws. a = Returned \<Longrightarrow> pendingVerdicts Unmarshal w ws = {#}"
  by (induction ws) (simp_all add: pendingVerdicts_def)

text \<open>A step into a state that is given in another form.\<close>

lemma poolStep_to:
  "poolStep ctx Unmarshal s t \<Longrightarrow> t = t' \<Longrightarrow> poolStep ctx Unmarshal s t'"
  by simp

text \<open>
  The pool in which only one worker moves runs as the function \<open>worker\<close> does, under any
  context: the steps of the pool are the accesses of the worker's loop, in their order.
  The worker is the last one of the pool; \<open>pre\<close> are the workers before it.
\<close>

lemma poolRun_step: "poolStep ctx Unmarshal s s' \<Longrightarrow> poolRun ctx Unmarshal s s'"
  using poolRun.move [OF poolRun.stay] .

lemma poolRun_trans:
  "poolRun ctx Unmarshal s' s'' \<Longrightarrow> poolRun ctx Unmarshal s s' \<Longrightarrow>
   poolRun ctx Unmarshal s s''"
proof (induction rule: poolRun.induct)
  case (stay t)
  then show ?case .
next
  case (move t t' t'')
  from poolRun.move [OF move.IH [OF move.prems] move.hyps(2)] show ?case .
qed

lemma send_all:
  "poolRun ctx Unmarshal
     \<lparr>unsent = ps, jobs = js, isClosed = False, workers = ws, crashed = False, world = w\<rparr>
     \<lparr>unsent = [], jobs = js @ ps, isClosed = False, workers = ws, crashed = False, world = w\<rparr>"
proof (induction ps arbitrary: js)
  case Nil
  show ?case by (simp add: poolRun.stay)
next
  case (Cons p ps)
  let ?s = "\<lparr>unsent = p # ps, jobs = js, isClosed = False, workers = ws, crashed = False,
             world = w\<rparr>"
  have "poolStep ctx Unmarshal ?s (?s\<lparr>unsent := ps, jobs := jobs ?s @ [p]\<rparr>)"
    by (rule poolStep.send) simp_all
  then have "poolRun ctx Unmarshal ?s
     \<lparr>unsent = ps, jobs = js @ [p], isClosed = False, workers = ws, crashed = False, world = w\<rparr>"
    by (simp add: poolRun_step)
  from poolRun_trans [OF Cons.IH [of "js @ [p]"] this] show ?case by simp
qed

lemma processJob_pieces:
  "processJob ctx Unmarshal wid jsonPath w =
     (case processFile ctx Unmarshal jsonPath (printMsg (Started wid jsonPath) w) of
        (None, w') \<Rightarrow> Some w'
      | (Some Panic, w') \<Rightarrow> None
      | (Some err, w') \<Rightarrow> Some (printMsg (Failed wid jsonPath err) w'))"
proof -
  let ?w = "printMsg (Started wid jsonPath) w"
  obtain r x where p: "processFile ctx Unmarshal jsonPath ?w = (r, x)"
    by (cases "processFile ctx Unmarshal jsonPath ?w")
  then have q: "processFile ctx Unmarshal jsonPath
      (w\<lparr>console := console w @ [Started wid jsonPath]\<rparr>) = (r, x)"
    by (simp add: printMsg_def)
  show ?thesis
  proof (cases r)
    case None
    with p q show ?thesis by (simp add: processJob_def)
  next
    case (Some err)
    with p q show ?thesis by (cases err) (simp_all add: processJob_def printMsg_def)
  qed
qed

lemma job_poolRun:
  assumes nc: "\<not> ctx (polls w)"
    and job: "processJob ctx Unmarshal (Suc (length pre)) jsonPath (tick w) = Some v"
  shows "poolRun ctx Unmarshal
     \<lparr>unsent = [], jobs = jsonPath # rest, isClosed = True, workers = pre @ [Idle],
      crashed = False, world = w\<rparr>
     \<lparr>unsent = [], jobs = rest, isClosed = True, workers = pre @ [Idle], crashed = False,
      world = v\<rparr>"
proof -
  let ?k = "length pre"
  let ?st = "\<lambda>js a x. \<lparr>unsent = [], jobs = js, isClosed = True, workers = pre @ [a],
                        crashed = False, world = x\<rparr>"
  let ?s0 = "?st (jsonPath # rest) Idle w"
  let ?w2 = "printMsg (Started (Suc ?k) jsonPath) (tick w)"
  obtain r w3 where l: "loadFile ctx Unmarshal jsonPath ?w2 = (r, w3)"
    by (cases "loadFile ctx Unmarshal jsonPath ?w2")
  let ?s1 = "?st rest (Received jsonPath) (tick w)"
  have "poolStep ctx Unmarshal ?s0 ?s1"
    by (rule poolStep_to [OF poolStep.receive [where k = ?k and jsonPath = jsonPath
          and rest = rest]])
       (use nc in simp_all)
  then have 1: "poolRun ctx Unmarshal ?s0 ?s1"
    by (rule poolRun_step)
  let ?s2 = "?st rest (Entered jsonPath) ?w2"
  have "poolStep ctx Unmarshal ?s1 ?s2"
    by (rule poolStep_to [OF poolStep.announce [where k = ?k and jsonPath = jsonPath]])
       simp_all
  from poolRun.move [OF 1 this]
  have 2: "poolRun ctx Unmarshal ?s0 ?s2" .
  let ?b = "case r of Inl err \<Rightarrow> Failing jsonPath err
            | Inr dataToWrite \<Rightarrow> Writing jsonPath dataToWrite"
  have "poolStep ctx Unmarshal ?s2 (?st rest ?b w3)"
    by (rule poolStep_to [OF poolStep.load [where k = ?k and jsonPath = jsonPath
          and r = r and w' = w3]])
       (use l in simp_all)
  from poolRun.move [OF 2 this]
  have 3: "poolRun ctx Unmarshal ?s0 (?st rest ?b w3)" .
  from job have pj: "(case processFile ctx Unmarshal jsonPath ?w2 of
        (None, w') \<Rightarrow> Some w'
      | (Some Panic, w') \<Rightarrow> None
      | (Some err, w') \<Rightarrow> Some (printMsg (Failed (Suc ?k) jsonPath err) w')) = Some v"
    by (simp only: processJob_pieces)
  have failing: "poolRun ctx Unmarshal ?s0 (?st rest Idle v)"
    if run: "poolRun ctx Unmarshal ?s0 (?st rest (Failing jsonPath err) x)"
      and pf: "processFile ctx Unmarshal jsonPath ?w2 = (Some err, x)" for err x
  proof -
    from pj pf have np: "err \<noteq> Panic"
      and v: "v = printMsg (Failed (Suc ?k) jsonPath err) x"
      by (cases err; simp)+
    have "poolStep ctx Unmarshal (?st rest (Failing jsonPath err) x) (?st rest Idle v)"
      by (rule poolStep_to [OF poolStep.logFailure [where k = ?k and jsonPath = jsonPath
            and err = err]])
         (use np v in simp_all)
    from poolRun.move [OF run this] show ?thesis .
  qed
  show ?thesis
  proof (cases r)
    case (Inl err)
    with l have pf: "processFile ctx Unmarshal jsonPath ?w2 = (Some err, w3)"
      by (simp add: processFile_pieces)
    from 3 Inl have "poolRun ctx Unmarshal ?s0 (?st rest (Failing jsonPath err) w3)"
      by simp
    then show ?thesis using pf by (rule failing)
  next
    case (Inr dataToWrite)
    obtain r' w4 where wr: "writeFile (srtPathOf jsonPath) dataToWrite w3 = (r', w4)"
      by (cases "writeFile (srtPathOf jsonPath) dataToWrite w3")
    let ?s3 = "?st rest (Writing jsonPath dataToWrite) w3"
    let ?c = "case r' of None \<Rightarrow> Written jsonPath | Some err \<Rightarrow> Failing jsonPath err"
    from 3 Inr have 3: "poolRun ctx Unmarshal ?s0 ?s3" by simp
    have "poolStep ctx Unmarshal ?s3 (?st rest ?c w4)"
      by (rule poolStep_to [OF poolStep.store [where k = ?k and jsonPath = jsonPath
            and dataToWrite = dataToWrite and r = r' and w' = w4]])
         (use wr in simp_all)
    from poolRun.move [OF 3 this]
    have 4: "poolRun ctx Unmarshal ?s0 (?st rest ?c w4)" .
    show ?thesis
    proof (cases r')
      case None
      with l Inr wr have pf: "processFile ctx Unmarshal jsonPath ?w2 =
          (None, printMsg (Generated (srtPathOf jsonPath)) w4)"
        by (simp add: processFile_pieces)
      with pj have v: "v = printMsg (Generated (srtPathOf jsonPath)) w4"
        by simp
      have st: "poolStep ctx Unmarshal (?st rest (Written jsonPath) w4) (?st rest Idle v)"
        by (rule poolStep_to [OF poolStep.report [where k = ?k and jsonPath = jsonPath]])
           (use v in simp_all)
      from 4 None have "poolRun ctx Unmarshal ?s0 (?st rest (Written jsonPath) w4)"
        by simp
      then show ?thesis using st by (rule poolRun.move)
    next
      case (Some err)
      with l Inr wr have pf: "processFile ctx Unmarshal jsonPath ?w2 = (Some err, w4)"
        by (simp add: processFile_pieces)
      from 4 Some have "poolRun ctx Unmarshal ?s0 (?st rest (Failing jsonPath err) w4)"
        by simp
      then show ?thesis using pf by (rule failing)
    qed
  qed
qed

lemma worker_poolRun:
  "worker ctx Unmarshal (Suc (length pre)) jsonPaths w = Some w' \<Longrightarrow>
   \<exists>rest. poolRun ctx Unmarshal
     \<lparr>unsent = [], jobs = jsonPaths, isClosed = True, workers = pre @ [Idle],
      crashed = False, world = w\<rparr>
     \<lparr>unsent = [], jobs = rest, isClosed = True, workers = pre @ [Returned],
      crashed = False, world = w'\<rparr>
     \<and> ((\<forall>n. \<not> ctx n) \<longrightarrow> rest = [])"
proof (induction jsonPaths arbitrary: w)
  case Nil
  let ?s = "\<lparr>unsent = [], jobs = [], isClosed = True, workers = pre @ [Idle],
             crashed = False, world = w\<rparr>"
  let ?t = "\<lparr>unsent = [], jobs = [], isClosed = True, workers = pre @ [Returned],
             crashed = False, world = w'\<rparr>"
  from Nil have w': "w' = tick w" by simp
  have "poolStep ctx Unmarshal ?s ?t"
  proof (cases "ctx (polls w)")
    case True
    show ?thesis
      by (rule poolStep_to [OF poolStep.cancelled [where k = "length pre"]])
         (use True w' in simp_all)
  next
    case False
    show ?thesis
      by (rule poolStep_to [OF poolStep.closed [where k = "length pre"]])
         (use False w' in simp_all)
  qed
  then have "poolRun ctx Unmarshal ?s ?t"
    by (rule poolRun_step)
  then show ?case by blast
next
  case (Cons jsonPath rest)
  let ?s = "\<lparr>unsent = [], jobs = jsonPath # rest, isClosed = True, workers = pre @ [Idle],
             crashed = False, world = w\<rparr>"
  show ?case
  proof (cases "ctx (polls w)")
    case True
    with Cons.prems have w': "w' = tick w" by simp
    have "poolStep ctx Unmarshal ?s
        \<lparr>unsent = [], jobs = jsonPath # rest, isClosed = True, workers = pre @ [Returned],
         crashed = False, world = w'\<rparr>"
      by (rule poolStep_to [OF poolStep.cancelled [where k = "length pre"]])
         (use True w' in simp_all)
    from poolRun_step [OF this] True show ?thesis by blast
  next
    case False
    obtain v where v: "processJob ctx Unmarshal (Suc (length pre)) jsonPath (tick w) = Some v"
      using processJob_Some by fastforce
    with Cons.prems False have "worker ctx Unmarshal (Suc (length pre)) rest v = Some w'"
      by simp
    from Cons.IH [OF this] obtain rest' where
      run: "poolRun ctx Unmarshal
              \<lparr>unsent = [], jobs = rest, isClosed = True, workers = pre @ [Idle],
               crashed = False, world = v\<rparr>
              \<lparr>unsent = [], jobs = rest', isClosed = True, workers = pre @ [Returned],
               crashed = False, world = w'\<rparr>"
      and e: "(\<forall>n. \<not> ctx n) \<longrightarrow> rest' = []"
      by blast
    from poolRun_trans [OF run job_poolRun [OF False v]] e show ?thesis by blast
  qed
qed

text \<open>
  Under the background context the last worker of the pool can do all the work while the
  others wait: that run ends in the environment that \<open>worker\<close> computes.
\<close>

lemma last_worker:
  assumes "0 < numWorkers"
  shows "\<exists>w'. worker Background Unmarshal numWorkers jsonPaths w0 = Some w'
     \<and> poolRun Background Unmarshal (poolStart numWorkers jsonPaths w0)
         \<lparr>unsent = [], jobs = [], isClosed = True,
          workers = replicate (numWorkers - 1) Idle @ [Returned], crashed = False,
          world = w'\<rparr>"
proof -
  let ?pre = "replicate (numWorkers - 1) Idle"
  from assms have n: "numWorkers = Suc (length ?pre)"
    by simp
  from assms have ws: "replicate numWorkers Idle = ?pre @ [Idle]"
    by (cases numWorkers) (simp_all add: replicate_append_same)
  obtain w' where w: "worker Background Unmarshal numWorkers jsonPaths w0 = Some w'"
    using worker_Background by blast
  then have "worker Background Unmarshal (Suc (length ?pre)) jsonPaths w0 = Some w'"
    using n by simp
  from worker_poolRun [OF this]
  have 3: "poolRun Background Unmarshal
     \<lparr>unsent = [], jobs = jsonPaths, isClosed = True, workers = ?pre @ [Idle],
      crashed = False, world = w0\<rparr>
     \<lparr>unsent = [], jobs = [], isClosed = True, workers = ?pre @ [Returned],
      crashed = False, world = w'\<rparr>"
    by (auto simp: Background_def)
  let ?s = "\<lparr>unsent = [], jobs = jsonPaths, isClosed = False, workers = ?pre @ [Idle],
             crashed = False, world = w0\<rparr>"
  from send_all [of Background Unmarshal jsonPaths "[]" "?pre @ [Idle]" w0]
  have 1: "poolRun Background Unmarshal (poolStart numWorkers jsonPaths w0) ?s"
    by (simp add: poolStart_def ws)
  have "poolStep Background Unmarshal ?s
     \<lparr>unsent = [], jobs = jsonPaths, isClosed = True, workers = ?pre @ [Idle],
      crashed = False, world = w0\<rparr>"
    by (rule poolStep_to [OF poolStep.close]) simp_all
  from poolRun_trans [OF 3 poolRun.move [OF 1 this]] w show ?thesis by blast
qed

section \<open>The claims about timing resolution\<close>

text \<open>
  C2. If a segment has no token that is both non-empty and free of the noise-marker
  prefix, or if the start taken from the first such token or the end taken from the last
  such token is the empty string, then \<open>extractTimestamps\<close> returns exactly the pair of
  the segment's own start and end. For every segment the returned pair is either the
  segment's pair or the pair of the first such token's start and the last such token's
  end: it never mixes a bound from the tokens with a bound from the segment.
\<close>

theorem extractTimestamps_fallback_pair:
  "((\<forall>t \<in> set (segment_Tokens segment). \<not> nonNoise t)
      \<or> (\<exists>a. find nonNoise (segment_Tokens segment) = Some a \<and> From (token_Timestamps a) = '''')
      \<or> (\<exists>b. find nonNoise (rev (segment_Tokens segment)) = Some b
            \<and> To (token_Timestamps b) = '''')
    \<longrightarrow> (\<exists>h. extractTimestamps segment =
               Some (From (segment_Timestamps segment), To (segment_Timestamps segment), h)))
   \<and> (\<exists>s e h. extractTimestamps segment = Some (s, e, h) \<and>
         ((s = From (segment_Timestamps segment) \<and> e = To (segment_Timestamps segment))
          \<or> (\<exists>a b. find nonNoise (segment_Tokens segment) = Some a
                \<and> find nonNoise (rev (segment_Tokens segment)) = Some b
                \<and> s = From (token_Timestamps a) \<and> e = To (token_Timestamps b))))"
  by (auto simp: extractTimestamps_eq find_None_iff2 split: option.splits dest: find_SomeD)

text \<open>
  The segment \<open>halfTimed\<close>: its only word has an end time but no start time, and both
  bounds come from the segment.
\<close>

theorem extractTimestamps_fallback_pair_witness:
  "find nonNoise (segment_Tokens halfTimed) = Some (mkToken '' hi'' '''' ''00:00:01,500'')
   \<and> From (token_Timestamps (mkToken '' hi'' '''' ''00:00:01,500'')) = ''''
   \<and> extractTimestamps halfTimed = Some (''00:00:01,000'', ''00:00:02,000'', True)"
proof -
  have f: "find nonNoise (segment_Tokens halfTimed) = Some (mkToken '' hi'' '''' ''00:00:01,500'')"
    by (simp add: halfTimed_def mkSegment_def mkToken_def nonNoise_def HasPrefix_def)
  have e: "From (token_Timestamps (mkToken '' hi'' '''' ''00:00:01,500'')) = ''''"
    by (simp add: mkToken_def)
  have s: "segment_Timestamps halfTimed = \<lparr>From = ''00:00:01,000'', To = ''00:00:02,000''\<rparr>"
    by (simp add: halfTimed_def mkSegment_def)
  have "\<exists>h. extractTimestamps halfTimed = Some (''00:00:01,000'', ''00:00:02,000'', h)"
    using extractTimestamps_fallback_pair [of halfTimed] f e s by auto
  moreover have "snd (snd (the (extractTimestamps halfTimed)))"
    by (simp add: extractTimestamps_eq f find_rev_None split: option.split)
  ultimately show ?thesis using f e by auto
qed

text \<open>
  C3. If a segment has a token whose text is non-empty and does not begin with the
  noise-marker prefix, and the start of the first such token and the end of the last
  such token are both non-empty, then \<open>extractTimestamps\<close> returns that start and that
  end.
\<close>

theorem extractTimestamps_token_pair:
  assumes "find nonNoise (segment_Tokens segment) = Some a"
    and "find nonNoise (rev (segment_Tokens segment)) = Some b"
    and "From (token_Timestamps a) \<noteq> ''''"
    and "To (token_Timestamps b) \<noteq> ''''"
  shows "extractTimestamps segment =
           Some (From (token_Timestamps a), To (token_Timestamps b), True)"
  using assms by (simp add: extractTimestamps_eq)

text \<open>
  The segment \<open>helloWorld\<close>: a marker, two words, a marker. The start is that of
  \<open>hello\<close>, the end that of \<open>world\<close>.
\<close>

theorem extractTimestamps_token_pair_witness:
  "find nonNoise (segment_Tokens helloWorld) = Some (mkToken '' hello'' ''00:00:00,500'' ''00:00:01,200'')
   \<and> find nonNoise (rev (segment_Tokens helloWorld)) =
        Some (mkToken '' world'' ''00:00:01,200'' ''00:00:02,400'')
   \<and> extractTimestamps helloWorld = Some (''00:00:00,500'', ''00:00:02,400'', True)"
proof -
  have f: "find nonNoise (segment_Tokens helloWorld) =
             Some (mkToken '' hello'' ''00:00:00,500'' ''00:00:01,200'')"
    by (simp add: helloWorld_def mkSegment_def mkToken_def nonNoise_def HasPrefix_def)
  have l: "find nonNoise (rev (segment_Tokens helloWorld)) =
             Some (mkToken '' world'' ''00:00:01,200'' ''00:00:02,400'')"
    by (simp add: helloWorld_def mkSegment_def mkToken_def nonNoise_def HasPrefix_def)
  show ?thesis
    using extractTimestamps_token_pair [OF f l] f l by (simp add: mkToken_def)
qed

section \<open>The claims about rendering\<close>

text \<open>
  C1, as the code has it. The number printed for a caption is the 1-based position of
  its segment in the document, so a skipped segment keeps its number: the numbers in the
  output are those of the segments that are not skipped, they increase strictly, and they
  are \<open>1, 2, \<dots>\<close> without gaps when no segment is skipped.
\<close>

theorem caption_index_is_segment_position:
  "fst (render Background jsonPath \<lparr>Transcription = Some segments\<rparr> n) =
     Inr (concat (map captionBlock (captions 0 segments)))
   \<and> map caption_index (captions 0 segments) =
       map (\<lambda>(k, segment). k + 1)
         (filter (\<lambda>(k, segment). \<not> skipped segment) (enumerate 0 segments))
   \<and> sorted_wrt (<) (map caption_index (captions 0 segments))
   \<and> ((\<forall>segment \<in> set segments. \<not> skipped segment) \<longrightarrow>
        map caption_index (captions 0 segments) = [1..<length segments + 1])"
proof (intro conjI)
  show "fst (render Background jsonPath \<lparr>Transcription = Some segments\<rparr> n) =
     Inr (concat (map captionBlock (captions 0 segments)))"
    by (simp add: render_Background)
  show "map caption_index (captions 0 segments) =
       map (\<lambda>(k, segment). k + 1)
         (filter (\<lambda>(k, segment). \<not> skipped segment) (enumerate 0 segments))"
    by (rule captions_indices)
  show "sorted_wrt (<) (map caption_index (captions 0 segments))"
    by (rule captions_indices_increasing)
  show "(\<forall>segment \<in> set segments. \<not> skipped segment) \<longrightarrow>
        map caption_index (captions 0 segments) = [1..<length segments + 1]"
    using captions_indices_all [of segments 0] by simp
qed

text \<open>Two segments that both have times are numbered 1 and 2.\<close>

theorem caption_index_is_segment_position_witness:
  "\<not> skipped plainHi \<and> \<not> skipped helloWorld
   \<and> map caption_index (captions 0 [plainHi, helloWorld]) = [1, 2]"
proof -
  have a: "\<not> skipped plainHi" by code_simp
  have b: "\<not> skipped helloWorld" by code_simp
  have "map caption_index (captions 0 [plainHi, helloWorld]) = [1..<length [plainHi, helloWorld] + 1]"
    using caption_index_is_segment_position [of _ "[plainHi, helloWorld]"] a b by simp
  then show ?thesis using a b by (simp add: upt_conv_Cons)
qed

text \<open>
  C1 as the specification states it fails: the first segment has no times and is
  skipped, and the only caption of the output carries the number 2.
\<close>

theorem caption_index_is_segment_position_counterexample:
  "fst (render Background ''a.json'' \<lparr>Transcription = Some [untimed, plainHi]\<rparr> 0) =
     Inr (''2'' @ [newline] @ ''00:00:01,000 --> 00:00:02,000'' @ [newline] @ ''hi'' @
          [newline, newline])
   \<and> map caption_index (captions 0 [untimed, plainHi]) = [2]
   \<and> map caption_index (captions 0 [untimed, plainHi]) \<noteq>
       [1..<Suc (length (captions 0 [untimed, plainHi]))]"
  by code_simp

text \<open>
  C4, as the code has it. Noise-marker tokens are left out of the timing resolution:
  removing them from the token list does not change the result of \<open>extractTimestamps\<close>.
  The text of a caption is the text field of its segment with leading and trailing white
  space removed, whatever the tokens are; markers in that field are printed as they are.
\<close>

theorem noise_tokens_excluded_from_timing_only:
  "extractTimestamps (segment\<lparr>segment_Tokens := filter nonNoise (segment_Tokens segment)\<rparr>) =
     extractTimestamps segment
   \<and> map caption_text (captions i segments) =
       map (\<lambda>segment. TrimSpace (segment_Text segment))
         (filter (\<lambda>segment. \<not> skipped segment) segments)
   \<and> TrimSpace (segment_Text (segment\<lparr>segment_Tokens := tokens\<rparr>)) =
       TrimSpace (segment_Text segment)"
proof (intro conjI)
  let ?seg = "segment\<lparr>segment_Tokens := filter nonNoise (segment_Tokens segment)\<rparr>"
  have a: "find nonNoise (segment_Tokens ?seg) = find nonNoise (segment_Tokens segment)"
    by (simp add: find_filter_same)
  have b: "find nonNoise (rev (segment_Tokens ?seg)) = find nonNoise (rev (segment_Tokens segment))"
    by (simp add: rev_filter find_filter_same)
  have c: "segment_Timestamps ?seg = segment_Timestamps segment"
    by simp
  show "extractTimestamps ?seg = extractTimestamps segment"
    by (simp only: extractTimestamps_eq a b c)
  show "map caption_text (captions i segments) =
       map (\<lambda>segment. TrimSpace (segment_Text segment))
         (filter (\<lambda>segment. \<not> skipped segment) segments)"
    by (rule captions_texts)
  show "TrimSpace (segment_Text (segment\<lparr>segment_Tokens := tokens\<rparr>)) =
       TrimSpace (segment_Text segment)"
    by simp
qed

text \<open>
  C4 as the specification states it fails: the text field of the segment begins with a
  marker, and so does the text of the caption.
\<close>

theorem noise_tokens_excluded_from_timing_only_counterexample:
  "fst (render Background ''a.json'' \<lparr>Transcription = Some [taggedText]\<rparr> 0) =
     Inr (''1'' @ [newline] @ ''00:00:00,000 --> 00:00:01,000'' @ [newline] @ ''[_BEG_] hi'' @
          [newline, newline])
   \<and> map caption_text (captions 0 [taggedText]) = [''[_BEG_] hi'']
   \<and> HasPrefix (caption_text (hd (captions 0 [taggedText]))) ''[_''"
  by code_simp

text \<open>
  The segment \<open>helloWorld\<close>: without its two markers the times are the same, and the
  caption text is the trimmed text field.
\<close>

theorem noise_tokens_excluded_from_timing_only_witness:
  "extractTimestamps (helloWorld\<lparr>segment_Tokens := filter nonNoise (segment_Tokens helloWorld)\<rparr>) =
     Some (''00:00:00,500'', ''00:00:02,400'', True)
   \<and> map caption_text (captions 0 [helloWorld]) = [''hello world'']"
proof -
  have a: "extractTimestamps helloWorld = Some (''00:00:00,500'', ''00:00:02,400'', True)"
    by code_simp
  have b: "\<not> skipped helloWorld"
    by code_simp
  have c: "TrimSpace (segment_Text helloWorld) = ''hello world''"
    by code_simp
  show ?thesis
    using noise_tokens_excluded_from_timing_only [of helloWorld 0 "[helloWorld]"] a b c
    by simp
qed

text \<open>
  C5. Rendering fails with the error of a missing transcription exactly when the
  segment list is absent (the nil slice); under the background context this is its only
  failure. A present but empty list renders to the empty string without an error. For a
  whole file: \<open>processFile\<close> returns that error exactly when the file was read and parsed
  and the list is absent, and for an empty list it writes the byte-order mark and nothing
  else.
\<close>

theorem render_fails_iff_transcription_missing:
  "((\<exists>p. fst (render ctx jsonPath doc n) = Inl (MissingTranscription p))
      \<longleftrightarrow> Transcription doc = None)
   \<and> ((\<exists>err. fst (render Background jsonPath doc n) = Inl err)
      \<longleftrightarrow> Transcription doc = None)
   \<and> (Transcription doc = Some [] \<longrightarrow>
        render ctx jsonPath doc n = (Inr '''', n))
   \<and> (fst (processFile Background Unmarshal jsonPath w) = Some (MissingTranscription jsonPath)
      \<longleftrightarrow> (\<exists>byteValue parsed. files w jsonPath = Some byteValue
            \<and> Unmarshal byteValue = Some parsed \<and> Transcription parsed = None))
   \<and> (files w jsonPath = Some byteValue \<and> Unmarshal byteValue = Some parsed
        \<and> Transcription parsed = Some [] \<and> srtPathOf jsonPath \<notin> unwritable w \<longrightarrow>
        fst (processFile Background Unmarshal jsonPath w) = None
        \<and> files (snd (processFile Background Unmarshal jsonPath w)) (srtPathOf jsonPath) =
            Some bom)"
proof -
  have 1: "(\<exists>p. fst (render ctx jsonPath doc n) = Inl (MissingTranscription p))
      \<longleftrightarrow> Transcription doc = None"
    using render_error [of ctx jsonPath doc n] by (auto simp: render_None)
  have 2: "(\<exists>err. fst (render Background jsonPath doc n) = Inl err)
      \<longleftrightarrow> Transcription doc = None"
    by (cases "Transcription doc") (simp_all add: render_None render_Some_Background)
  have 3: "Transcription doc = Some [] \<longrightarrow>
        render ctx jsonPath doc n = (Inr '''', n)"
    by (simp add: render_def)
  have 4: "fst (processFile Background Unmarshal jsonPath w) = Some (MissingTranscription jsonPath)
      \<longleftrightarrow> (\<exists>byteValue parsed. files w jsonPath = Some byteValue
            \<and> Unmarshal byteValue = Some parsed \<and> Transcription parsed = None)"
    by (auto simp: processFile_Background split: option.splits)
  have 5: "files w jsonPath = Some byteValue \<and> Unmarshal byteValue = Some parsed
        \<and> Transcription parsed = Some [] \<and> srtPathOf jsonPath \<notin> unwritable w \<longrightarrow>
        fst (processFile Background Unmarshal jsonPath w) = None
        \<and> files (snd (processFile Background Unmarshal jsonPath w)) (srtPathOf jsonPath) =
            Some bom"
    by (simp add: processFile_Background)
  from 1 2 3 4 5 show ?thesis by blast
qed

text \<open>
  A document without the list fails, and the file with an empty list yields a subtitle
  file that holds the byte-order mark only.
\<close>

theorem render_fails_iff_transcription_missing_witness:
  "Transcription \<lparr>Transcription = None\<rparr> = None
   \<and> fst (render Background ''missing.json'' \<lparr>Transcription = None\<rparr> 0) =
       Inl (MissingTranscription ''missing.json'')
   \<and> Transcription \<lparr>Transcription = Some []\<rparr> = Some []
   \<and> render Background ''empty.json'' \<lparr>Transcription = Some []\<rparr> 0 = (Inr '''', 0)
   \<and> fst (processFile Background exampleUnmarshal ''missing.json'' exampleWorld) =
       Some (MissingTranscription ''missing.json'')
   \<and> fst (processFile Background exampleUnmarshal ''empty.json'' exampleWorld) = None
   \<and> files (snd (processFile Background exampleUnmarshal ''empty.json'' exampleWorld))
        (srtPathOf ''empty.json'') = Some bom"
proof -
  have m: "files exampleWorld ''missing.json'' = Some ''{}''"
    and e: "files exampleWorld ''empty.json'' = Some emptyTranscription"
    and u: "srtPathOf ''empty.json'' \<notin> unwritable exampleWorld"
    by (simp_all add: exampleWorld_def)
  have pm: "exampleUnmarshal ''{}'' = Some \<lparr>Transcription = None\<rparr>"
    and pe: "exampleUnmarshal emptyTranscription = Some \<lparr>Transcription = Some []\<rparr>"
    by (simp_all add: exampleUnmarshal_def emptyTranscription_def)
  note t = render_fails_iff_transcription_missing
  have "fst (render Background ''missing.json'' \<lparr>Transcription = None\<rparr> 0) =
       Inl (MissingTranscription ''missing.json'')"
    using t [where ctx = Background and jsonPath = "''missing.json''"
        and doc = "\<lparr>Transcription = None\<rparr>" and n = 0]
    by (auto simp: render_def)
  moreover have "render Background ''empty.json'' \<lparr>Transcription = Some []\<rparr> 0 = (Inr '''', 0)"
    using t [where ctx = Background and jsonPath = "''empty.json''"
        and doc = "\<lparr>Transcription = Some []\<rparr>" and n = 0] by simp
  moreover have "fst (processFile Background exampleUnmarshal ''missing.json'' exampleWorld) =
       Some (MissingTranscription ''missing.json'')"
    using t [where Unmarshal = exampleUnmarshal and jsonPath = "''missing.json''"
        and w = exampleWorld] m pm by simp
  moreover have "fst (processFile Background exampleUnmarshal ''empty.json'' exampleWorld) = None
     \<and> files (snd (processFile Background exampleUnmarshal ''empty.json'' exampleWorld))
        (srtPathOf ''empty.json'') = Some bom"
    using t [where Unmarshal = exampleUnmarshal and jsonPath = "''empty.json''"
        and w = exampleWorld and byteValue = emptyTranscription
        and parsed = "\<lparr>Transcription = Some []\<rparr>"] e pe u by simp
  ultimately show ?thesis by simp
qed

text \<open>
  C6. \<open>extractTimestamps\<close> returns a result for every segment: it has no error result
  and its index expression never panics. When no token is valid and the segment's own
  times are empty it returns two empty strings. A segment whose resolved start or end is
  empty makes the loop go on to the next segment with the builder unchanged, and a
  document that consists of such a segment renders to the empty string without an error.
\<close>

theorem extractTimestamps_never_fails:
  "(\<exists>s e h. extractTimestamps segment = Some (s, e, h))
   \<and> ((\<forall>t \<in> set (segment_Tokens segment). \<not> nonNoise t)
        \<and> From (segment_Timestamps segment) = '''' \<and> To (segment_Timestamps segment) = ''''
      \<longrightarrow> extractTimestamps segment = Some ('''', '''', False))
   \<and> (extractTimestamps segment = Some (s', e', h') \<and> (s' = '''' \<or> e' = '''') \<and> \<not> ctx n
      \<longrightarrow> segmentsLoop ctx i (segment # rest) (srtBuilder, n) =
            segmentsLoop ctx (i + 1) rest (srtBuilder, n + 1))
   \<and> (extractTimestamps segment = Some (s', e', h') \<and> (s' = '''' \<or> e' = '''')
      \<longrightarrow> fst (render Background jsonPath \<lparr>Transcription = Some [segment]\<rparr> n) = Inr '''')"
proof (intro conjI)
  show "\<exists>s e h. extractTimestamps segment = Some (s, e, h)"
    by (rule extractTimestamps_total)
  show "(\<forall>t \<in> set (segment_Tokens segment). \<not> nonNoise t)
        \<and> From (segment_Timestamps segment) = '''' \<and> To (segment_Timestamps segment) = ''''
      \<longrightarrow> extractTimestamps segment = Some ('''', '''', False)"
    by (auto simp: extractTimestamps_eq find_None_iff2 split: option.splits dest: find_SomeD)
  show "extractTimestamps segment = Some (s', e', h') \<and> (s' = '''' \<or> e' = '''') \<and> \<not> ctx n
      \<longrightarrow> segmentsLoop ctx i (segment # rest) (srtBuilder, n) =
            segmentsLoop ctx (i + 1) rest (srtBuilder, n + 1)"
    by auto
  show "extractTimestamps segment = Some (s', e', h') \<and> (s' = '''' \<or> e' = '''')
      \<longrightarrow> fst (render Background jsonPath \<lparr>Transcription = Some [segment]\<rparr> n) = Inr ''''"
    by (auto simp: render_def Background_def)
qed

text \<open>The segment \<open>untimed\<close>: a marker as its only token and no times of its own.\<close>

theorem extractTimestamps_never_fails_witness:
  "\<not> nonNoise (mkToken ''[_BEG_]'' ''00:00:00,000'' ''00:00:00,000'')
   \<and> From (segment_Timestamps untimed) = '''' \<and> To (segment_Timestamps untimed) = ''''
   \<and> extractTimestamps untimed = Some ('''', '''', False)
   \<and> segmentsLoop Background 0 [untimed, plainHi] ('''', 0) =
       segmentsLoop Background 1 [plainHi] ('''', 1)
   \<and> fst (render Background ''a.json'' \<lparr>Transcription = Some [untimed]\<rparr> 0) = Inr ''''"
proof -
  have t: "segment_Tokens untimed = [mkToken ''[_BEG_]'' ''00:00:00,000'' ''00:00:00,000'']"
    and f: "From (segment_Timestamps untimed) = ''''"
    and l: "To (segment_Timestamps untimed) = ''''"
    by (simp_all add: untimed_def mkSegment_def)
  have m: "\<not> nonNoise (mkToken ''[_BEG_]'' ''00:00:00,000'' ''00:00:00,000'')"
    by (simp add: mkToken_def nonNoise_def HasPrefix_def)
  have b: "\<not> Background 0"
    by (simp add: Background_def)
  note inst = extractTimestamps_never_fails
    [where segment = untimed and s' = "''''" and e' = "''''" and h' = False]
  have x: "extractTimestamps untimed = Some ('''', '''', False)"
    using inst t f l m by simp
  moreover have "segmentsLoop Background 0 [untimed, plainHi] ('''', 0) =
       segmentsLoop Background 1 [plainHi] ('''', 1)"
    using inst [where ctx = Background and n = 0 and i = 0 and rest = "[plainHi]"
        and srtBuilder = "''''"] x b by simp
  moreover have "fst (render Background ''a.json'' \<lparr>Transcription = Some [untimed]\<rparr> 0) = Inr ''''"
    using inst [where jsonPath = "''a.json''" and n = 0] x by simp
  ultimately show ?thesis using f l m by simp
qed

text \<open>
  C7. The output is the concatenation of the blocks of the emitted captions and nothing
  else. A block is the index line, the line with start, arrow and end, the text, and a
  line feed that ends the text line followed by one that makes the blank line. The index
  line holds the position of the segment, counted from 1, in decimal notation: digits
  only, at least one, none of them a leading zero, and with that number as their value.
  Start and end are the resolved pair of the segment and the text is its text field after
  \<open>TrimSpace\<close>, which cuts a sequence of white-space runes from the front and one from
  the back and leaves a string that neither begins nor ends with such a rune.
\<close>

theorem caption_block_format:
  "fst (render Background jsonPath \<lparr>Transcription = Some segments\<rparr> n) =
     Inr (concat (map captionBlock (captions 0 segments)))
   \<and> captionBlock c =
       Sprintf_d (caption_index c) @ [newline] @
       caption_start c @ '' --> '' @ caption_end c @ [newline] @
       caption_text c @ [newline] @ [newline]
   \<and> map (\<lambda>c. (caption_index c, caption_start c, caption_end c, caption_text c))
         (captions 0 segments) =
       map (\<lambda>(k, segment). (k + 1, fst (the (extractTimestamps segment)),
                             fst (snd (the (extractTimestamps segment))),
                             TrimSpace (segment_Text segment)))
         (filter (\<lambda>(k, segment). \<not> skipped segment) (enumerate 0 segments))
   \<and> (Sprintf_d k \<noteq> [] \<and> set (Sprintf_d k) \<subseteq> set ''0123456789''
        \<and> decimalValue (Sprintf_d k) = k \<and> (0 < k \<longrightarrow> hd (Sprintf_d k) \<noteq> CHR ''0''))
   \<and> (\<exists>ls rs. set ls \<subseteq> set spaceRunes \<and> set rs \<subseteq> set spaceRunes
         \<and> txt = concat ls @ TrimSpace txt @ concat rs
         \<and> leadingRune spaceRunes (TrimSpace txt) = None
         \<and> leadingRune (map rev spaceRunes) (rev (TrimSpace txt)) = None)"
proof (intro conjI)
  show "fst (render Background jsonPath \<lparr>Transcription = Some segments\<rparr> n) =
     Inr (concat (map captionBlock (captions 0 segments)))"
    by (simp add: render_Background)
  show "captionBlock c =
       Sprintf_d (caption_index c) @ [newline] @
       caption_start c @ '' --> '' @ caption_end c @ [newline] @
       caption_text c @ [newline] @ [newline]"
    by (simp add: captionBlock_def)
  show "map (\<lambda>c. (caption_index c, caption_start c, caption_end c, caption_text c))
         (captions 0 segments) =
       map (\<lambda>(k, segment). (k + 1, fst (the (extractTimestamps segment)),
                             fst (snd (the (extractTimestamps segment))),
                             TrimSpace (segment_Text segment)))
         (filter (\<lambda>(k, segment). \<not> skipped segment) (enumerate 0 segments))"
    by (rule captions_all_fields)
  show "Sprintf_d k \<noteq> []"
    by (rule Sprintf_d_nonempty)
  show "set (Sprintf_d k) \<subseteq> set ''0123456789''"
    by (rule Sprintf_d_digits)
  show "decimalValue (Sprintf_d k) = k"
    by (rule Sprintf_d_value)
  show "0 < k \<longrightarrow> hd (Sprintf_d k) \<noteq> CHR ''0''"
    by (simp add: Sprintf_d_leading)
  show "\<exists>ls rs. set ls \<subseteq> set spaceRunes \<and> set rs \<subseteq> set spaceRunes
         \<and> txt = concat ls @ TrimSpace txt @ concat rs
         \<and> leadingRune spaceRunes (TrimSpace txt) = None
         \<and> leadingRune (map rev spaceRunes) (rev (TrimSpace txt)) = None"
    by (rule TrimSpace_decomp)
qed

text \<open>
  A document of three segments, the second of which is skipped: two blocks, numbered 1
  and 3, each closed by its blank line. A document whose twelfth segment is the first one
  with times: its block carries the two digits of 12.
\<close>

theorem caption_block_format_witness:
  "fst (render Background ''a.json'' \<lparr>Transcription = Some [plainHi, untimed, helloWorld]\<rparr> 0) =
     Inr (''1'' @ [newline] @ ''00:00:01,000 --> 00:00:02,000'' @ [newline] @ ''hi'' @
          [newline] @ [newline] @
          ''3'' @ [newline] @ ''00:00:00,500 --> 00:00:02,400'' @ [newline] @ ''hello world'' @
          [newline] @ [newline])
   \<and> fst (render Background ''a.json''
          \<lparr>Transcription = Some (replicate 11 untimed @ [plainHi])\<rparr> 0) =
     Inr (''12'' @ [newline] @ ''00:00:01,000 --> 00:00:02,000'' @ [newline] @ ''hi'' @
          [newline] @ [newline])
   \<and> (0::nat) < 12 \<and> Sprintf_d 12 = ''12'' \<and> hd (Sprintf_d 12) \<noteq> CHR ''0''
   \<and> decimalValue (Sprintf_d 12) = 12"
proof -
  let ?one = "\<lparr>caption_index = 1, caption_start = ''00:00:01,000'',
    caption_end = ''00:00:02,000'', caption_text = ''hi''\<rparr>"
  let ?three = "\<lparr>caption_index = 3, caption_start = ''00:00:00,500'',
    caption_end = ''00:00:02,400'', caption_text = ''hello world''\<rparr>"
  let ?twelve = "\<lparr>caption_index = 12, caption_start = ''00:00:01,000'',
    caption_end = ''00:00:02,000'', caption_text = ''hi''\<rparr>"
  have ca: "captions 0 [plainHi, untimed, helloWorld] = [?one, ?three]"
    by code_simp
  have cb: "captions 0 (replicate 11 untimed @ [plainHi]) = [?twelve]"
    by code_simp
  have d: "Sprintf_d 1 = ''1''" "Sprintf_d 3 = ''3''" "Sprintf_d 12 = ''12''"
    by code_simp+
  note out = caption_block_format [THEN conjunct1]
  note blk = caption_block_format [THEN conjunct2, THEN conjunct1]
  note dec = caption_block_format [THEN conjunct2, THEN conjunct2, THEN conjunct2, THEN conjunct1]
  have b1: "captionBlock ?one = ''1'' @ [newline] @ ''00:00:01,000 --> 00:00:02,000'' @
      [newline] @ ''hi'' @ [newline] @ [newline]"
    using blk [of ?one] d by simp
  have b3: "captionBlock ?three = ''3'' @ [newline] @ ''00:00:00,500 --> 00:00:02,400'' @
      [newline] @ ''hello world'' @ [newline] @ [newline]"
    using blk [of ?three] d by simp
  have b12: "captionBlock ?twelve = ''12'' @ [newline] @ ''00:00:01,000 --> 00:00:02,000'' @
      [newline] @ ''hi'' @ [newline] @ [newline]"
    using blk [of ?twelve] d by simp
  have "fst (render Background ''a.json'' \<lparr>Transcription = Some [plainHi, untimed, helloWorld]\<rparr> 0) =
     Inr (captionBlock ?one @ captionBlock ?three)"
    using out [of "''a.json''" "[plainHi, untimed, helloWorld]" 0] unfolding ca by simp
  moreover have "fst (render Background ''a.json''
          \<lparr>Transcription = Some (replicate 11 untimed @ [plainHi])\<rparr> 0) =
     Inr (captionBlock ?twelve)"
    using out [of "''a.json''" "replicate 11 untimed @ [plainHi]" 0] unfolding cb by simp
  moreover have "hd (Sprintf_d 12) \<noteq> CHR ''0''" "decimalValue (Sprintf_d 12) = 12"
    using dec [of 12] by simp_all
  ultimately show ?thesis
    using b1 b3 b12 d by simp
qed

text \<open>
  C10. Whether a segment is skipped does not depend on its text: replacing the text
  changes neither the resolved times nor the test of line 112. A segment with a non-empty
  start and end whose text consists of white-space runes only (or is empty) still gets
  its block, with an empty text line.
\<close>

theorem skip_decision_ignores_text:
  "extractTimestamps (segment\<lparr>segment_Text := txt\<rparr>) = extractTimestamps segment
   \<and> skipped (segment\<lparr>segment_Text := txt\<rparr>) = skipped segment
   \<and> (extractTimestamps segment = Some (s, e, h) \<and> s \<noteq> '''' \<and> e \<noteq> ''''
        \<and> set ws \<subseteq> set spaceRunes \<and> segment_Text segment = concat ws \<and> \<not> ctx n
      \<longrightarrow> segmentsLoop ctx i (segment # rest) (srtBuilder, n) =
            segmentsLoop ctx (i + 1) rest
              (srtBuilder @ Sprintf_d (i + 1) @ [newline] @ s @ '' --> '' @ e @ [newline]
                 @ '''' @ [newline] @ [newline], n + 1))"
proof (intro conjI)
  have a: "segment_Tokens (segment\<lparr>segment_Text := txt\<rparr>) = segment_Tokens segment"
    and b: "segment_Timestamps (segment\<lparr>segment_Text := txt\<rparr>) = segment_Timestamps segment"
    by simp_all
  show x: "extractTimestamps (segment\<lparr>segment_Text := txt\<rparr>) = extractTimestamps segment"
    by (simp only: extractTimestamps_eq a b)
  show "skipped (segment\<lparr>segment_Text := txt\<rparr>) = skipped segment"
    by (simp only: skipped_def x)
  show "extractTimestamps segment = Some (s, e, h) \<and> s \<noteq> '''' \<and> e \<noteq> ''''
        \<and> set ws \<subseteq> set spaceRunes \<and> segment_Text segment = concat ws \<and> \<not> ctx n
      \<longrightarrow> segmentsLoop ctx i (segment # rest) (srtBuilder, n) =
            segmentsLoop ctx (i + 1) rest
              (srtBuilder @ Sprintf_d (i + 1) @ [newline] @ s @ '' --> '' @ e @ [newline]
                 @ '''' @ [newline] @ [newline], n + 1)"
    by (auto simp: TrimSpace_white)
qed

text \<open>The segment \<open>blankText\<close>: a blank and an ideographic space as its text.\<close>

theorem skip_decision_ignores_text_witness:
  "extractTimestamps blankText = Some (''00:00:04,000'', ''00:00:05,000'', False)
   \<and> set [[CHR 0x20], [CHR 0xE3, CHR 0x80, CHR 0x80]] \<subseteq> set spaceRunes
   \<and> segment_Text blankText = concat [[CHR 0x20], [CHR 0xE3, CHR 0x80, CHR 0x80]]
   \<and> segmentsLoop Background 0 [blankText] ('''', 0) =
       (Inr (''1'' @ [newline] @ ''00:00:04,000 --> 00:00:05,000'' @ [newline] @ '''' @
             [newline] @ [newline]), 1)"
proof -
  have x: "extractTimestamps blankText = Some (''00:00:04,000'', ''00:00:05,000'', False)"
    by code_simp
  have w: "set [[CHR 0x20], [CHR 0xE3, CHR 0x80, CHR 0x80]] \<subseteq> set spaceRunes"
    by (simp add: spaceRunes_def)
  have t: "segment_Text blankText = concat [[CHR 0x20], [CHR 0xE3, CHR 0x80, CHR 0x80]]"
    by (simp add: blankText_def mkSegment_def)
  have b: "\<not> Background 0"
    by (simp add: Background_def)
  have d: "Sprintf_d 1 = ''1''"
    by code_simp
  have "segmentsLoop Background 0 [blankText] ('''', 0) =
       (Inr (''1'' @ [newline] @ ''00:00:04,000 --> 00:00:05,000'' @ [newline] @ '''' @
             [newline] @ [newline]), 1)"
    using skip_decision_ignores_text [where segment = blankText and ctx = Background
        and n = 0 and i = 0 and rest = "[]" and srtBuilder = "''''"
        and ws = "[[CHR 0x20], [CHR 0xE3, CHR 0x80, CHR 0x80]]"
        and s = "''00:00:04,000''" and e = "''00:00:05,000''" and h = False] x w t b d
    by simp
  with x w t show ?thesis by simp
qed

text \<open>
  C8. Under the background context the result of rendering is a function of the
  document alone: it does not depend on the moment of the run. The outcome of
  \<open>processFile\<close> and the bytes it writes depend only on the content of the input file
  (and on whether the subtitle file can be written), not on the rest of the environment,
  and processing the same file a second time returns the same outcome and leaves the
  files as the first run left them, provided the subtitle path is not the input path
  itself. The bytes written are the byte-order mark and the rendering of the parsed
  document, and nothing else in the file system changes. \<open>extractTimestamps\<close> reads
  only the tokens and the times of its segment, and a call leaves nothing behind for the
  next one: the captions of a list of segments are those of its front part followed by
  those of its rear part, and the times and text of a caption are the same function of
  its segment wherever the segment stands.
\<close>

theorem rendering_is_deterministic:
  "fst (render Background jsonPath doc n) = fst (render Background jsonPath doc n')
   \<and> (files w jsonPath = files w' jsonPath
        \<and> (srtPathOf jsonPath \<in> unwritable w \<longleftrightarrow> srtPathOf jsonPath \<in> unwritable w')
      \<longrightarrow> fst (processFile Background Unmarshal jsonPath w) =
            fst (processFile Background Unmarshal jsonPath w')
          \<and> (fst (processFile Background Unmarshal jsonPath w) = None \<longrightarrow>
                files (snd (processFile Background Unmarshal jsonPath w)) (srtPathOf jsonPath) =
                files (snd (processFile Background Unmarshal jsonPath w')) (srtPathOf jsonPath)))
   \<and> (srtPathOf jsonPath \<noteq> jsonPath
      \<longrightarrow> fst (processFile Background Unmarshal jsonPath
                 (snd (processFile Background Unmarshal jsonPath w))) =
            fst (processFile Background Unmarshal jsonPath w)
          \<and> files (snd (processFile Background Unmarshal jsonPath
                 (snd (processFile Background Unmarshal jsonPath w)))) =
            files (snd (processFile Background Unmarshal jsonPath w)))
   \<and> (files w jsonPath = Some byteValue \<and> Unmarshal byteValue = Some doc
        \<and> fst (processFile Background Unmarshal jsonPath w) = None
      \<longrightarrow> (\<exists>srt. fst (render Background jsonPath doc n) = Inr srt
            \<and> files (snd (processFile Background Unmarshal jsonPath w)) (srtPathOf jsonPath) =
                Some (bom @ srt)))
   \<and> unwritable (snd (processFile Background Unmarshal jsonPath w)) = unwritable w
   \<and> (q \<noteq> srtPathOf jsonPath \<longrightarrow>
        files (snd (processFile Background Unmarshal jsonPath w)) q = files w q)
   \<and> (segment_Tokens a = segment_Tokens b \<and> segment_Timestamps a = segment_Timestamps b
      \<longrightarrow> extractTimestamps a = extractTimestamps b)
   \<and> captions i (front @ rear) = captions i front @ captions (i + length front) rear
   \<and> map (\<lambda>c. (caption_start c, caption_end c, caption_text c)) (captions i segments) =
       map (\<lambda>segment. (fst (the (extractTimestamps segment)),
                        fst (snd (the (extractTimestamps segment))),
                        TrimSpace (segment_Text segment)))
         (filter (\<lambda>segment. \<not> skipped segment) segments)"
proof (intro conjI)
  show "fst (render Background jsonPath doc n) = fst (render Background jsonPath doc n')"
    by (cases "Transcription doc") (simp_all add: render_None render_Some_Background)
  show "files w jsonPath = files w' jsonPath
        \<and> (srtPathOf jsonPath \<in> unwritable w \<longleftrightarrow> srtPathOf jsonPath \<in> unwritable w')
      \<longrightarrow> fst (processFile Background Unmarshal jsonPath w) =
            fst (processFile Background Unmarshal jsonPath w')
          \<and> (fst (processFile Background Unmarshal jsonPath w) = None \<longrightarrow>
                files (snd (processFile Background Unmarshal jsonPath w)) (srtPathOf jsonPath) =
                files (snd (processFile Background Unmarshal jsonPath w')) (srtPathOf jsonPath))"
    by (simp add: processFile_Background split: option.split)
  show "srtPathOf jsonPath \<noteq> jsonPath
      \<longrightarrow> fst (processFile Background Unmarshal jsonPath
                 (snd (processFile Background Unmarshal jsonPath w))) =
            fst (processFile Background Unmarshal jsonPath w)
          \<and> files (snd (processFile Background Unmarshal jsonPath
                 (snd (processFile Background Unmarshal jsonPath w)))) =
            files (snd (processFile Background Unmarshal jsonPath w))"
  proof
    assume d: "srtPathOf jsonPath \<noteq> jsonPath"
    let ?w = "snd (processFile Background Unmarshal jsonPath w)"
    have f: "files ?w jsonPath = files w jsonPath"
      using d by (simp add: processFile_Background tick_def split: option.split)
    have u: "unwritable ?w = unwritable w"
      by (simp add: processFile_Background tick_def split: option.split)
    have r: "fst (processFile Background Unmarshal jsonPath ?w) =
             fst (processFile Background Unmarshal jsonPath w)"
      by (simp add: processFile_Background [of Unmarshal jsonPath ?w] f u)
         (simp add: processFile_Background split: option.split)
    have "files (snd (processFile Background Unmarshal jsonPath ?w)) = files ?w"
      by (simp add: processFile_Background [of Unmarshal jsonPath ?w] f u)
         (simp add: processFile_Background tick_def split: option.split)
    with r show "fst (processFile Background Unmarshal jsonPath ?w) =
            fst (processFile Background Unmarshal jsonPath w)
          \<and> files (snd (processFile Background Unmarshal jsonPath ?w)) = files ?w"
      by simp
  qed
  show "files w jsonPath = Some byteValue \<and> Unmarshal byteValue = Some doc
        \<and> fst (processFile Background Unmarshal jsonPath w) = None
      \<longrightarrow> (\<exists>srt. fst (render Background jsonPath doc n) = Inr srt
            \<and> files (snd (processFile Background Unmarshal jsonPath w)) (srtPathOf jsonPath) =
                Some (bom @ srt))"
    by (cases "Transcription doc")
       (auto simp: processFile_Background render_None render_Some_Background
          split: if_splits)
  show "unwritable (snd (processFile Background Unmarshal jsonPath w)) = unwritable w"
    by (simp add: processFile_Background tick_def split: option.split)
  show "q \<noteq> srtPathOf jsonPath \<longrightarrow>
        files (snd (processFile Background Unmarshal jsonPath w)) q = files w q"
    by (simp add: processFile_Background tick_def split: option.split)
  show "segment_Tokens a = segment_Tokens b \<and> segment_Timestamps a = segment_Timestamps b
      \<longrightarrow> extractTimestamps a = extractTimestamps b"
  proof (intro impI, elim conjE)
    assume t: "segment_Tokens a = segment_Tokens b"
      and s: "segment_Timestamps a = segment_Timestamps b"
    show "extractTimestamps a = extractTimestamps b"
      by (simp only: extractTimestamps_def t s)
  qed
  show "captions i (front @ rear) = captions i front @ captions (i + length front) rear"
    by (rule captions_append)
  show "map (\<lambda>c. (caption_start c, caption_end c, caption_text c)) (captions i segments) =
       map (\<lambda>segment. (fst (the (extractTimestamps segment)),
                        fst (snd (the (extractTimestamps segment))),
                        TrimSpace (segment_Text segment)))
         (filter (\<lambda>segment. \<not> skipped segment) segments)"
    by (rule captions_fields)
qed

text \<open>
  The file \<open>talk.json\<close> of the example directory: its second segment is skipped and the
  other two are written, numbered 1 and 3. Processed now, processed at a later moment and
  processed a second time, it yields the same bytes. The segment \<open>helloWorld\<close> gets the
  same times and text in the first and in the third place of a document.
\<close>

theorem rendering_is_deterministic_witness:
  "files exampleWorld ''talk.json'' = files (tick exampleWorld) ''talk.json''
   \<and> srtPathOf ''talk.json'' \<notin> unwritable exampleWorld
   \<and> srtPathOf ''talk.json'' \<notin> unwritable (tick exampleWorld)
   \<and> srtPathOf ''talk.json'' \<noteq> ''talk.json''
   \<and> files exampleWorld ''talk.json'' = Some (jsonDocument talk)
   \<and> exampleUnmarshal (jsonDocument talk) = Some \<lparr>Transcription = Some talk\<rparr>
   \<and> fst (processFile Background exampleUnmarshal ''talk.json'' exampleWorld) = None
   \<and> files (snd (processFile Background exampleUnmarshal ''talk.json'' exampleWorld))
        (srtPathOf ''talk.json'') =
      Some (bom @ ''1'' @ [newline] @ ''00:00:01,000 --> 00:00:02,000'' @ [newline] @ ''hi'' @
            [newline, newline] @
            ''3'' @ [newline] @ ''00:00:00,500 --> 00:00:02,400'' @ [newline] @
            ''hello world'' @ [newline, newline])
   \<and> fst (processFile Background exampleUnmarshal ''talk.json'' (tick exampleWorld)) = None
   \<and> files (snd (processFile Background exampleUnmarshal ''talk.json'' (tick exampleWorld)))
        (srtPathOf ''talk.json'') =
      files (snd (processFile Background exampleUnmarshal ''talk.json'' exampleWorld))
        (srtPathOf ''talk.json'')
   \<and> fst (processFile Background exampleUnmarshal ''talk.json''
           (snd (processFile Background exampleUnmarshal ''talk.json'' exampleWorld))) = None
   \<and> files (snd (processFile Background exampleUnmarshal ''talk.json''
           (snd (processFile Background exampleUnmarshal ''talk.json'' exampleWorld)))) =
      files (snd (processFile Background exampleUnmarshal ''talk.json'' exampleWorld))
   \<and> segment_Tokens (helloWorld\<lparr>segment_Text := ''other''\<rparr>) = segment_Tokens helloWorld
   \<and> segment_Timestamps (helloWorld\<lparr>segment_Text := ''other''\<rparr>) =
       segment_Timestamps helloWorld
   \<and> extractTimestamps (helloWorld\<lparr>segment_Text := ''other''\<rparr>) =
       Some (''00:00:00,500'', ''00:00:02,400'', True)
   \<and> map (\<lambda>c. (caption_start c, caption_end c, caption_text c))
         (captions 0 [helloWorld, untimed, helloWorld]) =
       [(''00:00:00,500'', ''00:00:02,400'', ''hello world''),
        (''00:00:00,500'', ''00:00:02,400'', ''hello world'')]"
proof -
  have a: "files exampleWorld ''talk.json'' = files (tick exampleWorld) ''talk.json''"
    and b: "srtPathOf ''talk.json'' \<notin> unwritable exampleWorld"
    and c: "srtPathOf ''talk.json'' \<notin> unwritable (tick exampleWorld)"
    and f: "files exampleWorld ''talk.json'' = Some (jsonDocument talk)"
    by (simp_all add: exampleWorld_def tick_def)
  have d: "srtPathOf ''talk.json'' \<noteq> ''talk.json''"
    by code_simp
  have u: "exampleUnmarshal (jsonDocument talk) = Some \<lparr>Transcription = Some talk\<rparr>"
    by code_simp
  have e: "fst (processFile Background exampleUnmarshal ''talk.json'' exampleWorld) = None"
    by code_simp
  have r: "fst (render Background ''talk.json'' \<lparr>Transcription = Some talk\<rparr> 0) =
      Inr (''1'' @ [newline] @ ''00:00:01,000 --> 00:00:02,000'' @ [newline] @ ''hi'' @
            [newline, newline] @
            ''3'' @ [newline] @ ''00:00:00,500 --> 00:00:02,400'' @ [newline] @
            ''hello world'' @ [newline, newline])"
    by code_simp
  have x: "extractTimestamps helloWorld = Some (''00:00:00,500'', ''00:00:02,400'', True)"
    by code_simp
  have s: "\<not> skipped helloWorld" "skipped untimed"
    by code_simp+
  have t: "TrimSpace (segment_Text helloWorld) = ''hello world''"
    by code_simp
  note inst = rendering_is_deterministic
    [where Unmarshal = exampleUnmarshal and jsonPath = "''talk.json''" and w = exampleWorld]
  have later: "fst (processFile Background exampleUnmarshal ''talk.json'' (tick exampleWorld)) = None
     \<and> files (snd (processFile Background exampleUnmarshal ''talk.json'' (tick exampleWorld)))
        (srtPathOf ''talk.json'') =
      files (snd (processFile Background exampleUnmarshal ''talk.json'' exampleWorld))
        (srtPathOf ''talk.json'')"
    using inst [where w' = "tick exampleWorld", THEN conjunct2, THEN conjunct1] a b c e
    by simp
  have again: "fst (processFile Background exampleUnmarshal ''talk.json''
           (snd (processFile Background exampleUnmarshal ''talk.json'' exampleWorld))) = None
     \<and> files (snd (processFile Background exampleUnmarshal ''talk.json''
           (snd (processFile Background exampleUnmarshal ''talk.json'' exampleWorld)))) =
      files (snd (processFile Background exampleUnmarshal ''talk.json'' exampleWorld))"
    using inst [THEN conjunct2, THEN conjunct2, THEN conjunct1] d e by simp
  have bytes: "files (snd (processFile Background exampleUnmarshal ''talk.json'' exampleWorld))
        (srtPathOf ''talk.json'') =
      Some (bom @ ''1'' @ [newline] @ ''00:00:01,000 --> 00:00:02,000'' @ [newline] @ ''hi'' @
            [newline, newline] @
            ''3'' @ [newline] @ ''00:00:00,500 --> 00:00:02,400'' @ [newline] @
            ''hello world'' @ [newline, newline])"
    using inst [where byteValue = "jsonDocument talk" and doc = "\<lparr>Transcription = Some talk\<rparr>"
        and n = 0, THEN conjunct2, THEN conjunct2, THEN conjunct2, THEN conjunct1] f u e r
    by simp
  have same: "extractTimestamps (helloWorld\<lparr>segment_Text := ''other''\<rparr>) =
       Some (''00:00:00,500'', ''00:00:02,400'', True)"
    using inst [where a = "helloWorld\<lparr>segment_Text := ''other''\<rparr>" and b = helloWorld,
        THEN conjunct2, THEN conjunct2, THEN conjunct2, THEN conjunct2, THEN conjunct2,
        THEN conjunct2, THEN conjunct1] x
    by simp
  have twice: "map (\<lambda>c. (caption_start c, caption_end c, caption_text c))
         (captions 0 [helloWorld, untimed, helloWorld]) =
       [(''00:00:00,500'', ''00:00:02,400'', ''hello world''),
        (''00:00:00,500'', ''00:00:02,400'', ''hello world'')]"
    using inst [where i = 0 and segments = "[helloWorld, untimed, helloWorld]",
        THEN conjunct2, THEN conjunct2, THEN conjunct2, THEN conjunct2, THEN conjunct2,
        THEN conjunct2, THEN conjunct2, THEN conjunct2] x s t
    by simp
  from a b c d f u e bytes later again same twice show ?thesis
    by simp
qed

section \<open>The claim about the batch\<close>

text \<open>
  C9. Take any run of the pool as \<^verbatim>\<open>main\<close> starts it, with at least one worker, over paths
  none of which names a subtitle file (\<^verbatim>\<open>main\<close> admits only names that end in \<^verbatim>\<open>.json\<close>).
  The workers run in parallel: a run is any interleaving of their accesses to the channel,
  the console and the files. In every state such a run reaches:
  \<^item> no failure has ended the program;
  \<^item> unless every worker has returned, a further step is possible, and every step brings
    the end nearer, so the run completes;
  \<^item> every path announced so far is one of the given paths, and every verdict printed so
    far (a generated file or a logged failure) is the verdict that a given path has when it
    is processed alone in the initial environment;
  \<^item> the files that are not subtitle files are as at the start;
  \<^item> when every worker has returned, nothing is left in the channel, every path has been
    announced once and has received exactly its own verdict, in whatever order: so a
    failure is logged for exactly the files that fail alone, and every other file is
    reported as generated;
  \<^item> if moreover no two paths have the same subtitle file, then the subtitle file of every
    path that succeeds alone holds what \<open>processFile\<close> alone writes.

  The function \<open>worker\<close> is one run of this pool: the run in which the last worker does
  all the work while the others wait ends in the state in which that worker has returned,
  in the environment that \<open>worker\<close> computes for its number and the given paths.
\<close>

theorem pool_isolates_failures:
  assumes "poolRun Background Unmarshal (poolStart numWorkers jsonPaths w0) s"
    and "0 < numWorkers"
    and "\<forall>p \<in> set jsonPaths. \<not> HasSuffix p ''.srt''"
  shows "\<not> crashed s
    \<and> (\<not> finished s \<longrightarrow> (\<exists>s'. poolStep Background Unmarshal s s'))
    \<and> (\<forall>s'. poolStep Background Unmarshal s s' \<longrightarrow> remaining s' < remaining s)
    \<and> mset (started (console (world s))) \<subseteq># mset (started (console w0)) + mset jsonPaths
    \<and> mset (verdicts (console (world s))) \<subseteq>#
        mset (verdicts (console w0)) + mset (map (ownVerdict Unmarshal w0) jsonPaths)
    \<and> (\<forall>q. \<not> HasSuffix q ''.srt'' \<longrightarrow> files (world s) q = files w0 q)
    \<and> (finished s \<longrightarrow>
          unsent s = [] \<and> jobs s = []
          \<and> mset (started (console (world s))) = mset (started (console w0)) + mset jsonPaths
          \<and> mset (verdicts (console (world s))) =
              mset (verdicts (console w0)) + mset (map (ownVerdict Unmarshal w0) jsonPaths))
    \<and> (finished s \<longrightarrow> inj_on srtPathOf (set jsonPaths) \<longrightarrow>
          (\<forall>p \<in> set jsonPaths.
             fst (processFile Background Unmarshal p w0) = None \<longrightarrow>
             files (world s) (srtPathOf p) =
               files (snd (processFile Background Unmarshal p w0)) (srtPathOf p)))
    \<and> (\<exists>w'. worker Background Unmarshal numWorkers jsonPaths w0 = Some w'
          \<and> poolRun Background Unmarshal (poolStart numWorkers jsonPaths w0)
              \<lparr>unsent = [], jobs = [], isClosed = True,
               workers = replicate (numWorkers - 1) Idle @ [Returned], crashed = False,
               world = w'\<rparr>)"
proof -
  from pool_invariant [OF assms(1,3)] obtain "done" where
    inv: "\<not> crashed s" "length (workers s) = numWorkers"
      "isClosed s \<longrightarrow> unsent s = []"
      "Returned \<in> set (workers s) \<longrightarrow> isClosed s \<and> jobs s = []"
      "\<forall>q. \<not> HasSuffix q ''.srt'' \<longrightarrow> files (world s) q = files w0 q"
    and d: "jsonPaths = done @ jobs s @ unsent s"
    and st: "mset (started (console (world s))) + awaited (workers s) =
         mset (started (console w0)) + mset done"
    and vd: "mset (verdicts (console (world s))) + pendingVerdicts Unmarshal w0 (workers s) =
         mset (verdicts (console w0)) + mset (map (ownVerdict Unmarshal w0) done)"
    by blast
  have progress: "\<not> finished s \<longrightarrow> (\<exists>s'. poolStep Background Unmarshal s s')"
    using poolStep_progress [OF inv(1)] by blast
  have decrease: "\<forall>s'. poolStep Background Unmarshal s s' \<longrightarrow> remaining s' < remaining s"
    using poolStep_remaining by blast
  have "mset (started (console (world s))) \<subseteq>#
        mset (started (console (world s))) + awaited (workers s)"
    by simp
  also have "\<dots> = mset (started (console w0)) + mset done"
    by (rule st)
  also have "\<dots> \<subseteq># mset (started (console w0)) + mset jsonPaths"
    by (subst d) simp
  finally have sub_started:
    "mset (started (console (world s))) \<subseteq># mset (started (console w0)) + mset jsonPaths" .
  have "mset (verdicts (console (world s))) \<subseteq>#
        mset (verdicts (console (world s))) + pendingVerdicts Unmarshal w0 (workers s)"
    by simp
  also have "\<dots> = mset (verdicts (console w0)) + mset (map (ownVerdict Unmarshal w0) done)"
    by (rule vd)
  also have "\<dots> \<subseteq>#
      mset (verdicts (console w0)) + mset (map (ownVerdict Unmarshal w0) jsonPaths)"
    by (subst d) simp
  finally have sub_verdicts:
    "mset (verdicts (console (world s))) \<subseteq>#
       mset (verdicts (console w0)) + mset (map (ownVerdict Unmarshal w0) jsonPaths)" .
  have all: "\<forall>a \<in> set (workers s). a = Returned" if "finished s"
    using that by (simp add: finished_def)
  have empty: "unsent s = [] \<and> jobs s = []" if "finished s"
  proof -
    from inv(2) assms(2) obtain a where "a \<in> set (workers s)"
      by (cases "workers s") auto
    with all [OF that] have "Returned \<in> set (workers s)" by auto
    with inv(3,4) show ?thesis by simp
  qed
  have fin: "finished s \<longrightarrow>
          unsent s = [] \<and> jobs s = []
          \<and> mset (started (console (world s))) = mset (started (console w0)) + mset jsonPaths
          \<and> mset (verdicts (console (world s))) =
              mset (verdicts (console w0)) + mset (map (ownVerdict Unmarshal w0) jsonPaths)"
  proof
    assume f: "finished s"
    from empty [OF f] d have e: "done = jsonPaths" by simp
    from st awaited_Returned [OF all [OF f]] e
    have "mset (started (console (world s))) = mset (started (console w0)) + mset jsonPaths"
      by simp
    moreover from vd pendingVerdicts_Returned [OF all [OF f], of Unmarshal w0] e
    have "mset (verdicts (console (world s))) =
              mset (verdicts (console w0)) + mset (map (ownVerdict Unmarshal w0) jsonPaths)"
      by simp
    ultimately show "unsent s = [] \<and> jobs s = []
          \<and> mset (started (console (world s))) = mset (started (console w0)) + mset jsonPaths
          \<and> mset (verdicts (console (world s))) =
              mset (verdicts (console w0)) + mset (map (ownVerdict Unmarshal w0) jsonPaths)"
      using empty [OF f] by simp
  qed
  have written: "finished s \<longrightarrow> inj_on srtPathOf (set jsonPaths) \<longrightarrow>
          (\<forall>p \<in> set jsonPaths.
             fst (processFile Background Unmarshal p w0) = None \<longrightarrow>
             files (world s) (srtPathOf p) =
               files (snd (processFile Background Unmarshal p w0)) (srtPathOf p))"
  proof (intro impI ballI)
    fix p
    assume f: "finished s" and i: "inj_on srtPathOf (set jsonPaths)"
      and p: "p \<in> set jsonPaths"
      and own: "fst (processFile Background Unmarshal p w0) = None"
    from pool_files [OF assms(1,3) i] p own
    have "files (world s) (srtPathOf p) =
             files (snd (processFile Background Unmarshal p w0)) (srtPathOf p)
           \<or> p \<in># unwrittenPaths (workers s) \<or> p \<in> set (jobs s) \<or> p \<in> set (unsent s)"
      by blast
    with empty [OF f] unwrittenPaths_Returned [OF all [OF f]]
    show "files (world s) (srtPathOf p) =
             files (snd (processFile Background Unmarshal p w0)) (srtPathOf p)"
      by simp
  qed
  from inv(1) progress decrease sub_started sub_verdicts inv(5) fin written
    last_worker [OF assms(2), of Unmarshal jsonPaths w0]
  show ?thesis by (intro conjI)
qed

text \<open>
  A run of two workers over two files of the example directory. Worker 1 takes
  \<open>missing.json\<close> before \<^verbatim>\<open>main\<close> has sent the second path, worker 2 takes \<open>talk.json\<close> and is
  the first to announce its file, so the announcements appear against the order of the
  channel. The document without a transcription fails while the talk is in work; the
  failure is logged, the talk is written and reported, and both workers find the channel
  closed. Each file has received its own verdict, and the subtitle file of the talk holds
  what \<open>processFile\<close> alone writes. Worker 2 alone prints the same verdicts over the same
  paths.
\<close>

theorem pool_isolates_failures_witness:
  "poolRun Background exampleUnmarshal
     (poolStart 2 [''missing.json'', ''talk.json''] exampleWorld) exampleFinal
   \<and> (0::nat) < 2
   \<and> \<not> HasSuffix ''missing.json'' ''.srt'' \<and> \<not> HasSuffix ''talk.json'' ''.srt''
   \<and> finished exampleFinal
   \<and> started (console (world exampleFinal)) = [''talk.json'', ''missing.json'']
   \<and> mset (started (console (world exampleFinal))) = mset [''missing.json'', ''talk.json'']
   \<and> mset (verdicts (console (world exampleFinal))) =
       mset [Failure ''missing.json'' (MissingTranscription ''missing.json''),
             Success ''talk.srt'']
   \<and> ownVerdict exampleUnmarshal exampleWorld ''missing.json'' =
       Failure ''missing.json'' (MissingTranscription ''missing.json'')
   \<and> ownVerdict exampleUnmarshal exampleWorld ''talk.json'' = Success ''talk.srt''
   \<and> inj_on srtPathOf (set [''missing.json'', ''talk.json''])
   \<and> fst (processFile Background exampleUnmarshal ''talk.json'' exampleWorld) = None
   \<and> files (world exampleFinal) ''talk.srt'' =
       files (snd (processFile Background exampleUnmarshal ''talk.json'' exampleWorld))
         ''talk.srt''
   \<and> files (world exampleFinal) ''talk.srt'' = Some talkSrt
   \<and> map_option console
         (worker Background exampleUnmarshal 2 [''missing.json'', ''talk.json''] exampleWorld) =
       Some [Started 2 ''missing.json'',
             Failed 2 ''missing.json'' (MissingTranscription ''missing.json''),
             Started 2 ''talk.json'', Generated ''talk.srt'']"
proof -
  let ?M = "''missing.json''"
  let ?T = "''talk.json''"
  let ?E = "MissingTranscription ''missing.json''"
  let ?w = "\<lambda>p c. \<lparr>files = files exampleWorld, unwritable = {}, polls = p, console = c\<rparr>"
  let ?wf = "\<lambda>p c. \<lparr>files = (files exampleWorld)(''talk.srt'' \<mapsto> talkSrt), unwritable = {},
                      polls = p, console = c\<rparr>"
  let ?st = "\<lambda>u j c a b x. \<lparr>unsent = u, jobs = j, isClosed = c, workers = [a, b],
                           crashed = False, world = x\<rparr>"
  let ?c1 = "[Started 2 ?T]"
  let ?c2 = "[Started 2 ?T, Started 1 ?M]"
  let ?c3 = "[Started 2 ?T, Started 1 ?M, Failed 1 ?M ?E]"
  let ?c4 = "[Started 2 ?T, Started 1 ?M, Failed 1 ?M ?E, Generated ''talk.srt'']"
  let ?s0 = "?st [?M, ?T] [] False Idle Idle (?w 0 [])"
  let ?s1 = "?st [?T] [?M] False Idle Idle (?w 0 [])"
  let ?s2 = "?st [?T] [] False (Received ?M) Idle (?w 1 [])"
  let ?s3 = "?st [] [?T] False (Received ?M) Idle (?w 1 [])"
  let ?s4 = "?st [] [] False (Received ?M) (Received ?T) (?w 2 [])"
  let ?s5 = "?st [] [] False (Received ?M) (Entered ?T) (?w 2 ?c1)"
  let ?s6 = "?st [] [] False (Entered ?M) (Entered ?T) (?w 2 ?c2)"
  let ?s7 = "?st [] [] True (Entered ?M) (Entered ?T) (?w 2 ?c2)"
  let ?s8 = "?st [] [] True (Entered ?M) (Writing ?T talkSrt) (?w 6 ?c2)"
  let ?s9 = "?st [] [] True (Failing ?M ?E) (Writing ?T talkSrt) (?w 7 ?c2)"
  let ?s10 = "?st [] [] True (Failing ?M ?E) (Written ?T) (?wf 7 ?c2)"
  let ?s11 = "?st [] [] True Idle (Written ?T) (?wf 7 ?c3)"
  let ?s12 = "?st [] [] True Idle Idle (?wf 7 ?c4)"
  let ?s13 = "?st [] [] True Returned Idle (?wf 8 ?c4)"
  let ?s14 = "?st [] [] True Returned Returned (?wf 9 ?c4)"
  have nb: "\<not> Background k" for k
    by (simp add: Background_def)
  have fT: "files exampleWorld ?T = Some (jsonDocument talk)"
    and fM: "files exampleWorld ?M = Some ''{}''"
    by (simp_all add: exampleWorld_def)
  have uT: "exampleUnmarshal (jsonDocument talk) = Some \<lparr>Transcription = Some talk\<rparr>"
    by code_simp
  have uM: "exampleUnmarshal ''{}'' = Some \<lparr>Transcription = None\<rparr>"
    by code_simp
  have cT: "bom @ concat (map captionBlock (captions 0 talk)) = talkSrt"
    by code_simp
  have nT: "length talk = 3"
    by (simp add: talk_def)
  have srtT: "srtPathOf ?T = ''talk.srt''" and srtM: "srtPathOf ?M = ''missing.srt''"
    by code_simp+
  have lT: "loadFile Background exampleUnmarshal ?T (?w 2 ?c2) = (Inr talkSrt, ?w 6 ?c2)"
    by (simp add: loadFile_Background fT uT cT nT)
  have lM: "loadFile Background exampleUnmarshal ?M (?w 6 ?c2) = (Inl ?E, ?w 7 ?c2)"
    by (simp add: loadFile_Background fM uM tick_def)
  have wT: "writeFile (srtPathOf ?T) talkSrt (?w 7 ?c2) = (None, ?wf 7 ?c2)"
    by (simp add: writeFile_def srtT)
  have 1: "poolStep Background exampleUnmarshal ?s0 ?s1"
    by (rule poolStep_to [OF poolStep.send [where jsonPath = ?M and rest = "[?T]"]])
       simp_all
  have 2: "poolStep Background exampleUnmarshal ?s1 ?s2"
    by (rule poolStep_to [OF poolStep.receive [where k = 0 and jsonPath = ?M and rest = "[]"]])
       (simp_all add: nb tick_def)
  have 3: "poolStep Background exampleUnmarshal ?s2 ?s3"
    by (rule poolStep_to [OF poolStep.send [where jsonPath = ?T and rest = "[]"]])
       simp_all
  have 4: "poolStep Background exampleUnmarshal ?s3 ?s4"
    by (rule poolStep_to [OF poolStep.receive [where k = 1 and jsonPath = ?T and rest = "[]"]])
       (simp_all add: nb tick_def)
  have 5: "poolStep Background exampleUnmarshal ?s4 ?s5"
    by (rule poolStep_to [OF poolStep.announce [where k = 1 and jsonPath = ?T]])
       (simp_all add: printMsg_def)
  have 6: "poolStep Background exampleUnmarshal ?s5 ?s6"
    by (rule poolStep_to [OF poolStep.announce [where k = 0 and jsonPath = ?M]])
       (simp_all add: printMsg_def)
  have 7: "poolStep Background exampleUnmarshal ?s6 ?s7"
    by (rule poolStep_to [OF poolStep.close [where s = ?s6]])
       simp_all
  have 8: "poolStep Background exampleUnmarshal ?s7 ?s8"
    by (rule poolStep_to [OF poolStep.load [where k = 1 and jsonPath = ?T
          and r = "Inr talkSrt" and w' = "?w 6 ?c2"]])
       (use lT in \<open>simp_all\<close>)
  have 9: "poolStep Background exampleUnmarshal ?s8 ?s9"
    by (rule poolStep_to [OF poolStep.load [where k = 0 and jsonPath = ?M
          and r = "Inl ?E" and w' = "?w 7 ?c2"]])
       (use lM in \<open>simp_all\<close>)
  have 10: "poolStep Background exampleUnmarshal ?s9 ?s10"
    by (rule poolStep_to [OF poolStep.store [where k = 1 and jsonPath = ?T
          and dataToWrite = talkSrt and r = None and w' = "?wf 7 ?c2"]])
       (use wT in \<open>simp_all\<close>)
  have 11: "poolStep Background exampleUnmarshal ?s10 ?s11"
    by (rule poolStep_to [OF poolStep.logFailure [where k = 0 and jsonPath = ?M and err = ?E]])
       (simp_all add: printMsg_def)
  have 12: "poolStep Background exampleUnmarshal ?s11 ?s12"
    by (rule poolStep_to [OF poolStep.report [where k = 1 and jsonPath = ?T]])
       (simp_all add: printMsg_def srtT)
  have 13: "poolStep Background exampleUnmarshal ?s12 ?s13"
    by (rule poolStep_to [OF poolStep.closed [where k = 0]])
       (simp_all add: nb tick_def)
  have 14: "poolStep Background exampleUnmarshal ?s13 ?s14"
    by (rule poolStep_to [OF poolStep.closed [where k = 1]])
       (simp_all add: nb tick_def)
  note r1 = poolRun.move [OF poolRun.stay 1]
  note r2 = poolRun.move [OF r1 2]
  note r3 = poolRun.move [OF r2 3]
  note r4 = poolRun.move [OF r3 4]
  note r5 = poolRun.move [OF r4 5]
  note r6 = poolRun.move [OF r5 6]
  note r7 = poolRun.move [OF r6 7]
  note r8 = poolRun.move [OF r7 8]
  note r9 = poolRun.move [OF r8 9]
  note r10 = poolRun.move [OF r9 10]
  note r11 = poolRun.move [OF r10 11]
  note r12 = poolRun.move [OF r11 12]
  note r13 = poolRun.move [OF r12 13]
  note r14 = poolRun.move [OF r13 14]
  have b: "poolStart 2 [?M, ?T] exampleWorld = ?s0"
    by (simp add: poolStart_def exampleWorld_def numeral_2_eq_2)
  have e: "exampleFinal = ?s14"
    by (simp add: exampleFinal_def)
  have run: "poolRun Background exampleUnmarshal (poolStart 2 [?M, ?T] exampleWorld)
      exampleFinal"
    using r14 by (simp only: b e)
  have p: "(0::nat) < 2"
    by simp
  have n: "\<forall>p \<in> set [?M, ?T]. \<not> HasSuffix p ''.srt''"
    by (simp add: HasSuffix_def)
  have f: "finished exampleFinal"
    by (simp add: finished_def exampleFinal_def)
  have i: "inj_on srtPathOf (set [?M, ?T])"
    by (simp add: srtT srtM)
  have oM: "ownVerdict exampleUnmarshal exampleWorld ?M = Failure ?M ?E"
    by code_simp
  have oT: "fst (processFile Background exampleUnmarshal ?T exampleWorld) = None"
    by code_simp
  have vT: "ownVerdict exampleUnmarshal exampleWorld ?T = Success ''talk.srt''"
    by (simp add: ownVerdict_def oT srtT)
  have c: "console exampleWorld = []"
    by (simp add: exampleWorld_def)
  note inst = pool_isolates_failures [OF run p n]
  note fin = inst [THEN conjunct2, THEN conjunct2, THEN conjunct2, THEN conjunct2,
      THEN conjunct2, THEN conjunct2, THEN conjunct1, THEN mp, OF f]
  note written = inst [THEN conjunct2, THEN conjunct2, THEN conjunct2, THEN conjunct2,
      THEN conjunct2, THEN conjunct2, THEN conjunct2, THEN conjunct1, THEN mp, OF f,
      THEN mp, OF i]
  have m1: "mset (started (console (world exampleFinal))) = mset [?M, ?T]"
    using fin [THEN conjunct2, THEN conjunct2, THEN conjunct1] by (simp add: c)
  have m2: "mset (verdicts (console (world exampleFinal))) =
      mset [Failure ?M ?E, Success ''talk.srt'']"
    using fin [THEN conjunct2, THEN conjunct2, THEN conjunct2] by (simp add: c oM vT)
  have "?T \<in> set [?M, ?T]"
    by simp
  from written [THEN bspec, OF this, THEN mp, OF oT]
  have m3: "files (world exampleFinal) ''talk.srt'' =
      files (snd (processFile Background exampleUnmarshal ?T exampleWorld)) ''talk.srt''"
    by (simp only: srtT)
  have m4: "started (console (world exampleFinal)) = [?T, ?M]"
    by (simp add: exampleFinal_def)
  have m5: "files (world exampleFinal) ''talk.srt'' = Some talkSrt"
    by (simp add: exampleFinal_def)
  have h: "\<not> HasSuffix ?M ''.srt''" "\<not> HasSuffix ?T ''.srt''"
    by (simp_all add: HasSuffix_def)
  have m6: "map_option console
         (worker Background exampleUnmarshal 2 [?M, ?T] exampleWorld) =
       Some [Started 2 ?M, Failed 2 ?M ?E, Started 2 ?T, Generated ''talk.srt'']"
    by code_simp
  from run p h f m4 m1 m2 oM vT i oT m3 m5 m6 show ?thesis
    by (intro conjI)
qed

end
